theory Spec2Isabelle
  imports Main
begin

section \<open>The coalescing atomic file writer of \<^verbatim>\<open>src/index.ts\<close>\<close>

text \<open>
  \<^verbatim>\<open>index.ts\<close> holds the class \<^verbatim>\<open>Writer\<close> twice: a compact variant whose
  \<^verbatim>\<open>write\<close> dispatches to the private helpers \<^verbatim>\<open>#defer\<close> and \<^verbatim>\<open>#flush\<close>, and a
  documented variant with the same logic written out inside \<^verbatim>\<open>write\<close>. Both are
  embedded here over one model of the JavaScript run time: promises are cells of a store,
  an \<^verbatim>\<open>async\<close> invocation suspended at an \<^verbatim>\<open>await\<close> is a frame, and the program advances
  by events, each one a caller invoking \<^verbatim>\<open>write\<close> or the storage layer completing the
  operation in flight. Every event runs the code up to its next \<^verbatim>\<open>await\<close> on storage, as
  one turn of the event loop does.
\<close>

subsection \<open>Paths\<close>

text \<open>
  \<^verbatim>\<open>PathLike\<close> is \<^verbatim>\<open>string | Buffer | URL\<close>. The functions of \<^verbatim>\<open>node:path\<close> and
  \<^verbatim>\<open>node:url\<close> that \<^verbatim>\<open>temp\<close> calls belong to the platform; they are parameters of the
  model.
\<close>

datatype pathlike = PathString string | PathBuffer "nat list" | PathURL string

record path_ops =
  fileURLToPath :: "string \<Rightarrow> string"
  bufferToString :: "nat list \<Rightarrow> string"
  dirname :: "string \<Rightarrow> string"
  basename :: "string \<Rightarrow> string"
  join :: "string \<Rightarrow> string \<Rightarrow> string"

text \<open>
  \<^verbatim>\<open>function temp(file) { const path = file instanceof URL ? fileURLToPath(file)
  : file.toString(); return join(dirname(path), `.${basename(path)}.tmp`) }\<close>
\<close>

definition temp :: "path_ops \<Rightarrow> pathlike \<Rightarrow> string" where
  "temp po file =
     (let path = (case file of
                    PathURL u \<Rightarrow> fileURLToPath po u
                  | PathString s \<Rightarrow> s
                  | PathBuffer b \<Rightarrow> bufferToString po b)
      in join po (dirname po path) (''.'' @ basename po path @ ''.tmp''))"

subsection \<open>Promises, thrown values, storage\<close>

type_synonym pid = nat

text \<open>
  A value thrown by the storage layer; \<open>is_error\<close> is the test
  \<^verbatim>\<open>err instanceof Error\<close>.
\<close>

datatype thrown = Thrown (is_error: bool) (message: string)

text \<open>
  A promise is pending, fulfilled, rejected, or resolved with another promise whose
  state it adopts (what \<^verbatim>\<open>return promise\<close> does inside an \<^verbatim>\<open>async\<close> function).
\<close>

datatype pstate = Pending | Fulfilled | Rejected thrown | Adopts pid

datatype completion = Normal | Throw thrown

datatype io_result = Ok | Throws thrown

text \<open>The storage operations that have completed, with their results.\<close>

datatype 'c fs_op = WriteFile string 'c io_result | Rename string pathlike io_result

text \<open>
  The resolving functions of a promise act once: \<^verbatim>\<open>done()\<close> and \<^verbatim>\<open>fail(err)\<close>
  settle a pending promise and do nothing to a settled one.
\<close>

definition fulfil :: "pid \<Rightarrow> (pid \<Rightarrow> pstate) \<Rightarrow> (pid \<Rightarrow> pstate)" where
  "fulfil p ps = (if ps p = Pending then ps(p := Fulfilled) else ps)"

definition reject :: "pid \<Rightarrow> thrown \<Rightarrow> (pid \<Rightarrow> pstate) \<Rightarrow> (pid \<Rightarrow> pstate)" where
  "reject p e ps = (if ps p = Pending then ps(p := Rejected e) else ps)"

fun settle :: "pid \<Rightarrow> completion \<Rightarrow> (pid \<Rightarrow> pstate) \<Rightarrow> (pid \<Rightarrow> pstate)" where
  "settle p Normal ps = fulfil p ps"
| "settle p (Throw e) ps = reject p e ps"

text \<open>What an observer of promise \<open>p\<close> sees: the state of the promise it adopted, if any.\<close>

definition outcome_of :: "(pid \<Rightarrow> pstate) \<Rightarrow> pid \<Rightarrow> pstate" where
  "outcome_of ps p = (case ps p of Adopts q \<Rightarrow> ps q | s \<Rightarrow> s)"

subsection \<open>Suspended invocations\<close>

text \<open>
  An invocation of the write sequence is suspended either on storage (at
  \<^verbatim>\<open>await writeFile\<close> or at \<^verbatim>\<open>await rename\<close>) or, inside its \<^verbatim>\<open>finally\<close> block, at
  \<^verbatim>\<open>await this.write(next)\<close>. In the second case it remembers how its
  \<^verbatim>\<open>try\<close>/\<^verbatim>\<open>catch\<close> ended: normally, or with the rethrown value.
\<close>

datatype stage = WritingTmp | Renaming

datatype 'c io_frame = IoFrame (io_promise: pid) (io_content: 'c) (io_stage: stage)

datatype await_frame = AwaitNext (aw_promise: pid) (aw_awaited: pid) (aw_pending: completion)

subsection \<open>The writer and its world\<close>

text \<open>The private fields of the class \<^verbatim>\<open>Writer\<close>; a pair \<^verbatim>\<open>[Done, Fail]\<close> is the
  identity of the promise whose resolving functions it holds.\<close>

record 'c writer =
  target :: pathlike
  tmp :: string
  active :: bool
  current :: "pid option"
  waiting :: "pid option"
  queued :: "pid option"
  buffer :: "'c option"

text \<open>
  The writer together with the run time around it: the promise store, the suspended
  invocations, the two files, the completed storage operations (most recent first) and
  the promises handed to outside callers (oldest first).
\<close>

record 'c world = "'c writer" +
  promises :: "pid \<Rightarrow> pstate"
  next_id :: pid
  inflight :: "'c io_frame option"
  suspended :: "await_frame list"
  tmp_file :: "'c option"
  target_file :: "'c option"
  oplog :: "'c fs_op list"
  issued :: "pid list"

text \<open>\<^verbatim>\<open>constructor(file) { this.#target = file; this.#tmp = temp(file) }\<close>, with the
  field initialisers of the class, in an empty run time.\<close>

definition new_writer :: "path_ops \<Rightarrow> pathlike \<Rightarrow> 'c world" where
  "new_writer po file =
     \<lparr> target = file, tmp = temp po file, active = False, current = None,
       waiting = None, queued = None, buffer = None,
       promises = (\<lambda>_. Pending), next_id = 0, inflight = None, suspended = [],
       tmp_file = None, target_file = None, oplog = [], issued = [] \<rparr>"

text \<open>\<^verbatim>\<open>get path()\<close> and \<^verbatim>\<open>get busy()\<close>.\<close>

definition path :: "'c world \<Rightarrow> pathlike" where
  "path st = target st"

definition busy :: "'c world \<Rightarrow> bool" where
  "busy st = active st"

text \<open>
  When a promise settles, the invocations awaiting it resume, innermost first. An
  invocation resumed inside its \<^verbatim>\<open>finally\<close> block has nothing left to run: it ends
  with the value thrown by the awaited call if that was rejected, and otherwise the way
  its \<^verbatim>\<open>try\<close>/\<^verbatim>\<open>catch\<close> ended.
\<close>

fun unwind :: "await_frame list \<Rightarrow> (pid \<Rightarrow> pstate) \<Rightarrow> await_frame list \<times> (pid \<Rightarrow> pstate)" where
  "unwind [] ps = ([], ps)"
| "unwind (AwaitNext f p c # rest) ps =
     (case outcome_of ps p of
        Fulfilled \<Rightarrow> unwind rest (settle f c ps)
      | Rejected e \<Rightarrow> unwind rest (settle f (Throw e) ps)
      | _ \<Rightarrow> (AwaitNext f p c # rest, ps))"

text \<open>An invocation with promise \<open>f\<close> ends with completion \<open>c\<close>.\<close>

definition finish :: "pid \<Rightarrow> completion \<Rightarrow> 'c world \<Rightarrow> 'c world" where
  "finish f c st =
     (let (fs, ps) = unwind (suspended st) (settle f c (promises st))
      in st\<lparr>promises := ps, suspended := fs\<rparr>)"

subsection \<open>The compact variant\<close>

text \<open>
  \<^verbatim>\<open>#defer(content) { this.#buffer = content; if (!this.#queued) { this.#queued =
  new Promise((done, fail) => { this.#waiting = [done, fail] }) } return this.#queued }\<close>
\<close>

definition defer_write :: "'c \<Rightarrow> 'c world \<Rightarrow> pid \<times> 'c world" where
  "defer_write content st =
     (let st1 = st\<lparr>buffer := Some content\<rparr>
      in case queued st1 of
           None \<Rightarrow>
             (let q = next_id st1
              in (q, st1\<lparr>queued := Some q, waiting := Some q,
                         promises := (promises st1)(q := Pending), next_id := Suc q\<rparr>))
         | Some q \<Rightarrow> (q, st1))"

text \<open>
  \<^verbatim>\<open>#flush\<close> up to its first \<^verbatim>\<open>await\<close>: \<^verbatim>\<open>this.#active = true\<close>, then
  \<^verbatim>\<open>writeFile(this.#tmp, content, 'utf-8')\<close> is in flight. The result is the promise
  of the \<^verbatim>\<open>async\<close> invocation.
\<close>

definition flush :: "'c \<Rightarrow> 'c world \<Rightarrow> pid \<times> 'c world" where
  "flush content st =
     (let f = next_id st
      in (f, st\<lparr>active := True, promises := (promises st)(f := Pending), next_id := Suc f,
                inflight := Some (IoFrame f content WritingTmp)\<rparr>))"

text \<open>
  \<^verbatim>\<open>async write(content) { return this.#active ? this.#defer(content) :
  this.#flush(content) }\<close>: the promise of this \<^verbatim>\<open>async\<close> invocation is a new one,
  resolved with the promise the helper returned.
\<close>

definition write_compact :: "'c \<Rightarrow> 'c world \<Rightarrow> pid \<times> 'c world" where
  "write_compact content st =
     (let (r, st1) = (if active st then defer_write content st else flush content st);
          p = next_id st1
      in (p, st1\<lparr>promises := (promises st1)(p := Adopts r), next_id := Suc p\<rparr>))"

text \<open>\<^verbatim>\<open>this.#current?.[0]()\<close>\<close>

definition notify_done :: "'c world \<Rightarrow> 'c world" where
  "notify_done st =
     (case current st of
        None \<Rightarrow> st
      | Some q \<Rightarrow> st\<lparr>promises := fulfil q (promises st)\<rparr>)"

text \<open>\<^verbatim>\<open>catch (err) { if (err instanceof Error) { this.#current?.[1](err) } throw err }\<close>;
  the rethrow is the completion \<open>Throw err\<close> handed to the \<^verbatim>\<open>finally\<close> block.\<close>

definition notify_fail :: "thrown \<Rightarrow> 'c world \<Rightarrow> 'c world" where
  "notify_fail err st =
     (if is_error err
      then (case current st of
              None \<Rightarrow> st
            | Some q \<Rightarrow> st\<lparr>promises := reject q err (promises st)\<rparr>)
      else st)"

text \<open>
  \<^verbatim>\<open>finally { this.#active = false; this.#current = this.#waiting; this.#waiting =
  this.#queued = null; if (this.#buffer !== null) { const next = this.#buffer;
  this.#buffer = null; await this.write(next) } }\<close>, for the invocation with promise
  \<open>f\<close> whose \<^verbatim>\<open>try\<close>/\<^verbatim>\<open>catch\<close> ended with \<open>c\<close>.
\<close>

definition flush_finally :: "pid \<Rightarrow> completion \<Rightarrow> 'c world \<Rightarrow> 'c world" where
  "flush_finally f c st =
     (let st1 = st\<lparr>active := False, current := waiting st, waiting := None, queued := None\<rparr>
      in case buffer st1 of
           Some next \<Rightarrow>
             (let (p, st2) = write_compact next (st1\<lparr>buffer := None\<rparr>)
              in st2\<lparr>suspended := AwaitNext f p c # suspended st2\<rparr>)
         | None \<Rightarrow> finish f c st1)"

text \<open>The storage layer completes the operation in flight with result \<open>r\<close>, and
  \<^verbatim>\<open>#flush\<close> resumes after its \<^verbatim>\<open>await\<close>.\<close>

definition io_done :: "io_result \<Rightarrow> 'c world \<Rightarrow> 'c world" where
  "io_done r st =
     (case inflight st of
        None \<Rightarrow> st
      | Some (IoFrame f content WritingTmp) \<Rightarrow>
          (case r of
             Ok \<Rightarrow> st\<lparr>tmp_file := Some content,
                      oplog := WriteFile (tmp st) content Ok # oplog st,
                      inflight := Some (IoFrame f content Renaming)\<rparr>
           | Throws err \<Rightarrow>
               flush_finally f (Throw err)
                 (notify_fail err
                    (st\<lparr>oplog := WriteFile (tmp st) content (Throws err) # oplog st,
                        inflight := None\<rparr>)))
      | Some (IoFrame f content Renaming) \<Rightarrow>
          (case r of
             Ok \<Rightarrow>
               flush_finally f Normal
                 (notify_done
                    (st\<lparr>target_file := tmp_file st, tmp_file := None,
                        oplog := Rename (tmp st) (target st) Ok # oplog st,
                        inflight := None\<rparr>))
           | Throws err \<Rightarrow>
               flush_finally f (Throw err)
                 (notify_fail err
                    (st\<lparr>oplog := Rename (tmp st) (target st) (Throws err) # oplog st,
                        inflight := None\<rparr>))))"

subsection \<open>Events and runs\<close>

datatype 'c event = Call 'c | Io io_result

text \<open>An outside caller keeps the promise \<^verbatim>\<open>write\<close> returns. A completion event
  with no operation in flight changes nothing.\<close>

definition step :: "'c world \<Rightarrow> 'c event \<Rightarrow> 'c world" where
  "step st ev =
     (case ev of
        Call content \<Rightarrow> (let (p, st1) = write_compact content st in st1\<lparr>issued := issued st1 @ [p]\<rparr>)
      | Io r \<Rightarrow> io_done r st)"

definition run :: "'c world \<Rightarrow> 'c event list \<Rightarrow> 'c world" where
  "run st evs = foldl step st evs"

definition outcome :: "'c world \<Rightarrow> pid \<Rightarrow> pstate" where
  "outcome st p = outcome_of (promises st) p"

text \<open>The outcomes seen by the outside callers, in call order.\<close>

definition outcomes :: "'c world \<Rightarrow> pstate list" where
  "outcomes st = map (outcome st) (issued st)"

subsection \<open>The documented variant\<close>

text \<open>
  \<^verbatim>\<open>Content\<close> is the data parameter of \<^verbatim>\<open>writeFile\<close>: a string, or a buffer or
  other object. The documented variant tests the buffered payload for truthiness
  (\<^verbatim>\<open>const next = this.#buffer; if (next) ...\<close>): \<^verbatim>\<open>null\<close> and the empty string are
  falsy, every object is truthy.
\<close>

datatype content = Text string | Bytes "nat list"

fun truthy :: "content option \<Rightarrow> bool" where
  "truthy None = False"
| "truthy (Some (Text s)) = (s \<noteq> [])"
| "truthy (Some (Bytes b)) = True"

text \<open>
  \<^verbatim>\<open>async write(content)\<close> up to its first \<^verbatim>\<open>await\<close>, or to its \<^verbatim>\<open>return\<close>. With
  no write active, the invocation itself runs the write sequence and its own promise is
  the result; otherwise \<^verbatim>\<open>this.#buffer = content; if (!this.#queued) { this.#queued =
  new Promise((d, f) => { this.#waiting = [d, f] }) } return this.#queued\<close>.
\<close>

definition write_documented :: "content \<Rightarrow> content world \<Rightarrow> pid \<times> content world" where
  "write_documented content st =
     (if \<not> active st
      then (let f = next_id st
            in (f, st\<lparr>active := True, promises := (promises st)(f := Pending),
                      next_id := Suc f, inflight := Some (IoFrame f content WritingTmp)\<rparr>))
      else (let st1 = st\<lparr>buffer := Some content\<rparr>;
                (q, st2) = (case queued st1 of
                              None \<Rightarrow>
                                (let q = next_id st1
                                 in (q, st1\<lparr>queued := Some q, waiting := Some q,
                                            promises := (promises st1)(q := Pending),
                                            next_id := Suc q\<rparr>))
                            | Some q \<Rightarrow> (q, st1));
                p = next_id st2
            in (p, st2\<lparr>promises := (promises st2)(p := Adopts q), next_id := Suc p\<rparr>)))"

text \<open>\<^verbatim>\<open>const c = this.#current; if (c) c[0]()\<close>\<close>

definition notify_done_documented :: "content world \<Rightarrow> content world" where
  "notify_done_documented st =
     (let c = current st
      in case c of
           Some q \<Rightarrow> st\<lparr>promises := fulfil q (promises st)\<rparr>
         | None \<Rightarrow> st)"

text \<open>\<^verbatim>\<open>catch (err) { const c = this.#current; if (c && err instanceof Error) c[1](err);
  throw err }\<close>\<close>

definition notify_fail_documented :: "thrown \<Rightarrow> content world \<Rightarrow> content world" where
  "notify_fail_documented err st =
     (let c = current st
      in case c of
           Some q \<Rightarrow> if is_error err then st\<lparr>promises := reject q err (promises st)\<rparr> else st
         | None \<Rightarrow> st)"

text \<open>
  \<^verbatim>\<open>finally { this.#active = false; this.#current = this.#waiting; this.#waiting = null;
  this.#queued = null; const next = this.#buffer; if (next) { this.#buffer = null;
  await this.write(next) } }\<close>
\<close>

definition finally_documented :: "pid \<Rightarrow> completion \<Rightarrow> content world \<Rightarrow> content world" where
  "finally_documented f c st =
     (let st1 = st\<lparr>active := False, current := waiting st, waiting := None, queued := None\<rparr>;
          next = buffer st1
      in if truthy next
         then (case next of
                 Some n \<Rightarrow>
                   (let (p, st2) = write_documented n (st1\<lparr>buffer := None\<rparr>)
                    in st2\<lparr>suspended := AwaitNext f p c # suspended st2\<rparr>)
               | None \<Rightarrow> finish f c st1)
         else finish f c st1)"

definition io_done_documented :: "io_result \<Rightarrow> content world \<Rightarrow> content world" where
  "io_done_documented r st =
     (case inflight st of
        None \<Rightarrow> st
      | Some (IoFrame f content WritingTmp) \<Rightarrow>
          (case r of
             Ok \<Rightarrow> st\<lparr>tmp_file := Some content,
                      oplog := WriteFile (tmp st) content Ok # oplog st,
                      inflight := Some (IoFrame f content Renaming)\<rparr>
           | Throws err \<Rightarrow>
               finally_documented f (Throw err)
                 (notify_fail_documented err
                    (st\<lparr>oplog := WriteFile (tmp st) content (Throws err) # oplog st,
                        inflight := None\<rparr>)))
      | Some (IoFrame f content Renaming) \<Rightarrow>
          (case r of
             Ok \<Rightarrow>
               finally_documented f Normal
                 (notify_done_documented
                    (st\<lparr>target_file := tmp_file st, tmp_file := None,
                        oplog := Rename (tmp st) (target st) Ok # oplog st,
                        inflight := None\<rparr>))
           | Throws err \<Rightarrow>
               finally_documented f (Throw err)
                 (notify_fail_documented err
                    (st\<lparr>oplog := Rename (tmp st) (target st) (Throws err) # oplog st,
                        inflight := None\<rparr>))))"

definition step_documented :: "content world \<Rightarrow> content event \<Rightarrow> content world" where
  "step_documented st ev =
     (case ev of
        Call content \<Rightarrow>
          (let (p, st1) = write_documented content st in st1\<lparr>issued := issued st1 @ [p]\<rparr>)
      | Io r \<Rightarrow> io_done_documented r st)"

definition run_documented :: "content world \<Rightarrow> content event list \<Rightarrow> content world" where
  "run_documented st evs = foldl step_documented st evs"

subsection \<open>A concrete platform for closed examples\<close>

text \<open>Path functions for a target given as a bare file name in the working directory;
  they serve only to state examples without free variables.\<close>

definition plain_paths :: path_ops where
  "plain_paths =
     \<lparr> fileURLToPath = (\<lambda>u. u), bufferToString = (\<lambda>b. []),
       dirname = (\<lambda>p. ''.''), basename = (\<lambda>p. p), join = (\<lambda>d f. d @ ''/'' @ f) \<rparr>"

subsection \<open>Notions used to state and prove the properties\<close>

text \<open>A storage operation of the writer on its own two paths.\<close>

fun own_op :: "string \<Rightarrow> pathlike \<Rightarrow> 'c fs_op \<Rightarrow> bool" where
  "own_op t f (WriteFile p c r) = (p = t)"
| "own_op t f (Rename s d r) = (s = t \<and> d = f)"

text \<open>
  The promises of the suspended invocations, innermost first, and how they hang together:
  each invocation suspended in its \<^verbatim>\<open>finally\<close> block awaits the promise of the next
  inner invocation, or a promise resolved with it.
\<close>

definition frame_promises :: "'c world \<Rightarrow> pid list" where
  "frame_promises st =
     (case inflight st of None \<Rightarrow> [] | Some fr \<Rightarrow> [io_promise fr]) @
     map aw_promise (suspended st)"

fun linked :: "pid \<Rightarrow> await_frame list \<Rightarrow> (pid \<Rightarrow> pstate) \<Rightarrow> bool" where
  "linked f [] ps = True"
| "linked f (AwaitNext g p c # rest) ps = ((p = f \<or> ps p = Adopts f) \<and> linked g rest ps)"

fun pstate_of :: "completion \<Rightarrow> pstate" where
  "pstate_of Normal = Fulfilled"
| "pstate_of (Throw e) = Rejected e"

text \<open>How an invocation awaiting in its \<^verbatim>\<open>finally\<close> block ends, from the way the
  awaited call ended and the way its own \<^verbatim>\<open>try\<close>/\<^verbatim>\<open>catch\<close> ended.\<close>

fun override :: "completion \<Rightarrow> completion \<Rightarrow> completion" where
  "override (Throw e) own = Throw e"
| "override Normal own = own"

text \<open>The run-time invariant shared by both variants.\<close>

definition wf :: "'c world \<Rightarrow> bool" where
  "wf st \<longleftrightarrow>
     (active st \<longleftrightarrow> inflight st \<noteq> None) \<and>
     (inflight st = None \<longrightarrow> suspended st = []) \<and>
     queued st = waiting st \<and>
     (\<forall>q. current st = Some q \<longrightarrow>
        q < next_id st \<and> promises st q = Pending \<and> q \<notin> set (frame_promises st) \<and>
        waiting st \<noteq> Some q) \<and>
     (\<forall>q. waiting st = Some q \<longrightarrow>
        q < next_id st \<and> promises st q = Pending \<and> q \<notin> set (frame_promises st)) \<and>
     distinct (frame_promises st) \<and>
     (\<forall>f \<in> set (frame_promises st). f < next_id st \<and> promises st f = Pending) \<and>
     (\<forall>fr \<in> set (suspended st). aw_awaited fr < next_id st) \<and>
     (\<forall>fr. inflight st = Some fr \<longrightarrow> linked (io_promise fr) (suspended st) (promises st))"

text \<open>A completion of the operation in flight ends the generation unless it is the
  success of the write to the temporary file, which is followed by the rename.\<close>

fun ends :: "stage \<Rightarrow> io_result \<Rightarrow> bool" where
  "ends WritingTmp Ok = False"
| "ends WritingTmp (Throws e) = True"
| "ends Renaming r = True"

fun completion_of :: "io_result \<Rightarrow> completion" where
  "completion_of Ok = Normal"
| "completion_of (Throws e) = Throw e"

text \<open>The promise store after the \<^verbatim>\<open>try\<close>/\<^verbatim>\<open>catch\<close> of a generation that ended with
  \<open>r\<close> has called the resolving functions held in \<^verbatim>\<open>#current\<close>.\<close>

fun notified :: "pid option \<Rightarrow> io_result \<Rightarrow> (pid \<Rightarrow> pstate) \<Rightarrow> (pid \<Rightarrow> pstate)" where
  "notified None r ps = ps"
| "notified (Some q) Ok ps = fulfil q ps"
| "notified (Some q) (Throws e) ps = (if is_error e then reject q e ps else ps)"

text \<open>The world when the generation in flight, at stage \<open>sg\<close> with payload \<open>c\<close>, has
  ended with \<open>r\<close> and control enters the \<^verbatim>\<open>finally\<close> block.\<close>

definition after_try :: "'c world \<Rightarrow> 'c \<Rightarrow> stage \<Rightarrow> io_result \<Rightarrow> 'c world" where
  "after_try st c sg r =
     (case sg of
        WritingTmp \<Rightarrow> st\<lparr>oplog := WriteFile (tmp st) c r # oplog st, inflight := None,
                         promises := notified (current st) r (promises st)\<rparr>
      | Renaming \<Rightarrow>
          (case r of
             Ok \<Rightarrow> st\<lparr>target_file := tmp_file st, tmp_file := None,
                      oplog := Rename (tmp st) (target st) r # oplog st, inflight := None,
                      promises := notified (current st) r (promises st)\<rparr>
           | Throws e \<Rightarrow> st\<lparr>oplog := Rename (tmp st) (target st) r # oplog st,
                      inflight := None,
                      promises := notified (current st) r (promises st)\<rparr>))"

text \<open>The promise store when the invocation with promise \<open>f\<close> has ended with \<open>r\<close>,
  nothing was buffered, and every invocation awaiting it has ended in turn.\<close>

definition drained_promises :: "'c world \<Rightarrow> pid \<Rightarrow> io_result \<Rightarrow> pid \<Rightarrow> pstate" where
  "drained_promises st f r =
     snd (unwind (suspended st)
            (settle f (completion_of r) (notified (current st) r (promises st))))"

text \<open>The queue slots of the compact variant go together: a payload is buffered exactly
  when a queued promise exists, and nothing is buffered or awaited while idle.\<close>

definition slots :: "'c world \<Rightarrow> bool" where
  "slots st \<longleftrightarrow>
     queued st = waiting st \<and>
     (buffer st = None \<longleftrightarrow> waiting st = None) \<and>
     (\<not> active st \<longrightarrow> buffer st = None \<and> current st = None)"

text \<open>A promise that exists and whose resolving functions nobody holds any more.\<close>

definition unreferenced :: "'c world \<Rightarrow> pid \<Rightarrow> bool" where
  "unreferenced st x \<longleftrightarrow>
     x < next_id st \<and> current st \<noteq> Some x \<and> waiting st \<noteq> Some x \<and>
     queued st \<noteq> Some x \<and> x \<notin> set (frame_promises st)"

text \<open>Promise identifiers not yet handed out name pending cells.\<close>

definition unused :: "'c world \<Rightarrow> bool" where
  "unused st \<longleftrightarrow> (\<forall>x \<ge> next_id st. promises st x = Pending)"

text \<open>The payloads of the calls among some events, in call order, and the payload of the
  most recent call.\<close>

fun call_payloads :: "'c event list \<Rightarrow> 'c list" where
  "call_payloads [] = []"
| "call_payloads (Call c # evs) = c # call_payloads evs"
| "call_payloads (Io r # evs) = call_payloads evs"

definition last_call :: "'c event list \<Rightarrow> 'c option" where
  "last_call evs = (case rev (call_payloads evs) of [] \<Rightarrow> None | c # cs \<Rightarrow> Some c)"

text \<open>The same events with every call's payload tagged with the number of the call,
  counted from \<open>n\<close>: the writer never looks into a payload, so the tags show which call
  a written payload came from.\<close>

fun number :: "nat \<Rightarrow> 'c event list \<Rightarrow> (nat \<times> 'c) event list" where
  "number n [] = []"
| "number n (Call c # evs) = Call (n, c) # number (Suc n) evs"
| "number n (Io r # evs) = Io r # number n evs"

text \<open>The payloads of the generations in a log of storage operations, and the payloads
  committed by a successful rename; most recent first, as the log is.\<close>

fun payloads :: "'c fs_op list \<Rightarrow> 'c list" where
  "payloads [] = []"
| "payloads (WriteFile t c r # l) = c # payloads l"
| "payloads (Rename s d r # l) = payloads l"

fun committed :: "'c fs_op \<Rightarrow> 'c fs_op list \<Rightarrow> 'c list" where
  "committed (Rename s d Ok) (WriteFile t c r # l) = [c]"
| "committed x l = []"

fun commits :: "'c fs_op list \<Rightarrow> 'c list" where
  "commits [] = []"
| "commits (x # l) = committed x l @ commits l"

text \<open>The payloads of the generations so far, of the one whose write to the temporary
  file is in flight, and the buffered one; most recent first.\<close>

definition lineup :: "'c world \<Rightarrow> 'c list" where
  "lineup st =
     (case buffer st of None \<Rightarrow> [] | Some b \<Rightarrow> [b]) @
     (case inflight st of Some (IoFrame f c WritingTmp) \<Rightarrow> [c] | _ \<Rightarrow> []) @
     payloads (oplog st)"

text \<open>
  The generations that have ended, read off the log of storage operations: a generation
  ends with a failed write to the temporary file or with a rename, which follows the
  successful write of its payload. Most recent first in \<open>gens\<close>, oldest first in
  \<open>results\<close>.
\<close>

fun ended :: "'c fs_op \<Rightarrow> 'c fs_op list \<Rightarrow> ('c \<times> io_result) list" where
  "ended (WriteFile t c (Throws e)) l = [(c, Throws e)]"
| "ended (Rename s d r) (WriteFile t c r' # l) = [(c, r)]"
| "ended x l = []"

fun gens :: "'c fs_op list \<Rightarrow> ('c \<times> io_result) list" where
  "gens [] = []"
| "gens (x # l) = ended x l @ gens l"

definition results :: "'c world \<Rightarrow> ('c \<times> io_result) list" where
  "results st = rev (gens (oplog st))"

text \<open>What the end of a generation does to the queued promise it holds in
  \<^verbatim>\<open>#current\<close>, and the state of the promise served by generation number \<open>k\<close>
  (counted from 0) given the generations that have ended.\<close>

fun verdict :: "io_result \<Rightarrow> pstate" where
  "verdict Ok = Fulfilled"
| "verdict (Throws e) = (if is_error e then Rejected e else Pending)"

definition served :: "('c \<times> io_result) list \<Rightarrow> nat \<Rightarrow> pstate" where
  "served rs k = (if k < length rs then verdict (snd (rs ! k)) else Pending)"

text \<open>While the rename of a generation is in flight, the successful write of its
  payload is the last operation logged.\<close>

definition log_ok :: "'c world \<Rightarrow> bool" where
  "log_ok st \<longleftrightarrow>
     (\<forall>f c. inflight st = Some (IoFrame f c Renaming) \<longrightarrow>
        (\<exists>l. oplog st = WriteFile (tmp st) c Ok # l))"

text \<open>
  The life of a queued promise \<open>q\<close> that generation number \<open>k\<close> will serve: it is
  queued while generation \<open>k - 1\<close> is in flight, held in \<^verbatim>\<open>#current\<close> while generation
  \<open>k\<close> is in flight, and settled by the end of generation \<open>k\<close>, after which nothing
  refers to it. \<open>S\<close> collects the payloads generation \<open>k\<close> may write.
\<close>

definition track :: "pid \<Rightarrow> nat \<Rightarrow> 'c set \<Rightarrow> 'c world \<Rightarrow> bool" where
  "track q k S st \<longleftrightarrow>
     (Suc (length (results st)) = k \<and> queued st = Some q \<and> (\<exists>b \<in> S. buffer st = Some b)) \<or>
     (length (results st) = k \<and> current st = Some q \<and>
        (\<exists>f b sg. inflight st = Some (IoFrame f b sg) \<and> b \<in> S)) \<or>
     (k < length (results st) \<and> unreferenced st q \<and>
        promises st q = served (results st) k \<and> fst (results st ! k) \<in> S)"

text \<open>
  The outcome of a chain of generations, from the results of its generations in the order
  they ended: the value thrown by the last generation that failed, if any failed.
\<close>

fun last_throw :: "io_result list \<Rightarrow> thrown option" where
  "last_throw [] = None"
| "last_throw (r # rs) =
     (case last_throw rs of
        Some e \<Rightarrow> Some e
      | None \<Rightarrow> (case r of Ok \<Rightarrow> None | Throws e \<Rightarrow> Some e))"

definition chain_outcome :: "io_result list \<Rightarrow> pstate" where
  "chain_outcome rs = (case last_throw rs of None \<Rightarrow> Fulfilled | Some e \<Rightarrow> Rejected e)"

text \<open>The writer is active before and after each of the events.\<close>

fun stays_active :: "'c world \<Rightarrow> 'c event list \<Rightarrow> bool" where
  "stays_active st [] = active st"
| "stays_active st (ev # evs) = (active st \<and> stays_active (step st ev) evs)"

text \<open>
  The chain of invocations started by a call on an idle writer when \<open>m\<close> generations had
  ended: the outermost suspended invocation has promise \<open>n\<close>, and the invocations
  suspended in their \<^verbatim>\<open>finally\<close> blocks remember the results of the generations that
  have ended since.
\<close>

definition chain :: "pid \<Rightarrow> nat \<Rightarrow> 'c world \<Rightarrow> bool" where
  "chain n m st \<longleftrightarrow>
     active st \<and> m \<le> length (results st) \<and>
     ((suspended st = [] \<and> (\<exists>c sg. inflight st = Some (IoFrame n c sg))) \<or>
      (suspended st \<noteq> [] \<and> aw_promise (last (suspended st)) = n \<and> inflight st \<noteq> None)) \<and>
     map aw_pending (suspended st) = rev (map (\<lambda>x. completion_of (snd x)) (drop m (results st)))"

section \<open>Properties\<close>

lemmas runtime_defs =
  finish_def outcomes_def outcome_def outcome_of_def fulfil_def reject_def busy_def path_def

lemmas compact_defs =
  run_def step_def write_compact_def flush_def defer_write_def io_done_def
  flush_finally_def notify_done_def notify_fail_def

lemmas documented_defs =
  run_documented_def step_documented_def write_documented_def io_done_documented_def
  finally_documented_def notify_done_documented_def notify_fail_documented_def

subsection \<open>Scenarios\<close>

text \<open>
  C7. Sequential use, \<^verbatim>\<open>await write(a); await write(b)\<close>, with every storage operation
  succeeding: the promise of each call is pending while its generation is in flight and
  fulfilled when its rename completes, at which moment \<^verbatim>\<open>busy\<close> is false; the file
  then holds \<open>a\<close>, and \<open>b\<close> at the end; exactly two generations ran, each one a write
  to the temporary file and a rename, whether or not \<open>a\<close> and \<open>b\<close> are the same
  payload.
\<close>

theorem sequential_writes:
  "let w = new_writer po file;
       s1 = run w [Call a, Io Ok, Io Ok];
       s2 = run s1 [Call b, Io Ok, Io Ok]
   in outcomes (run w [Call a]) = [Pending] \<and> busy (run w [Call a]) \<and>
      outcomes (run w [Call a, Io Ok]) = [Pending] \<and> busy (run w [Call a, Io Ok]) \<and>
      outcomes s1 = [Fulfilled] \<and> \<not> busy s1 \<and> target_file s1 = Some a \<and>
      outcomes (run s1 [Call b]) = [Fulfilled, Pending] \<and> busy (run s1 [Call b]) \<and>
      outcomes (run s1 [Call b, Io Ok]) = [Fulfilled, Pending] \<and>
      busy (run s1 [Call b, Io Ok]) \<and>
      outcomes s2 = [Fulfilled, Fulfilled] \<and> \<not> busy s2 \<and> target_file s2 = Some b \<and>
      rev (oplog s2) =
        [WriteFile (temp po file) a Ok, Rename (temp po file) file Ok,
         WriteFile (temp po file) b Ok, Rename (temp po file) file Ok]"
  unfolding Let_def by (simp add: compact_defs runtime_defs new_writer_def)

text \<open>
  C3, as the claim states it, fails: with \<^verbatim>\<open>write("A")\<close>, \<^verbatim>\<open>write("B")\<close>,
  \<^verbatim>\<open>write("C")\<close> issued back to back, the generation of \<^verbatim>\<open>"A"\<close> commits (the file
  holds \<^verbatim>\<open>"A"\<close>), and the promise of \<^verbatim>\<open>write("A")\<close> is still rejected, with the error of
  the generation that ran afterwards for \<^verbatim>\<open>"C"\<close>. The promises returned for \<^verbatim>\<open>"B"\<close>
  and \<^verbatim>\<open>"C"\<close> are two promises, \<open>3\<close> and \<open>4\<close> (an \<^verbatim>\<open>async\<close> function returns a
  new promise at every call), both resolved with the queued promise \<open>2\<close>.
\<close>

theorem first_write_rejected_by_next_generation:
  "target_file (run (new_writer plain_paths (PathString ''f''))
       [Call ''A'', Call ''B'', Call ''C'', Io Ok, Io Ok, Io (Throws (Thrown True ''EIO''))])
     = Some ''A'' \<and>
   outcomes (run (new_writer plain_paths (PathString ''f''))
       [Call ''A'', Call ''B'', Call ''C'', Io Ok, Io Ok, Io (Throws (Thrown True ''EIO''))])
     = [Rejected (Thrown True ''EIO''), Rejected (Thrown True ''EIO''),
        Rejected (Thrown True ''EIO'')] \<and>
   issued (run (new_writer plain_paths (PathString ''f''))
       [Call ''A'', Call ''B'', Call ''C'']) = [1, 3, 4] \<and>
   promises (run (new_writer plain_paths (PathString ''f''))
       [Call ''A'', Call ''B'', Call ''C'']) 3 = Adopts 2 \<and>
   promises (run (new_writer plain_paths (PathString ''f''))
       [Call ''A'', Call ''B'', Call ''C'']) 4 = Adopts 2"
  by (simp add: compact_defs runtime_defs new_writer_def)

text \<open>
  C3, amended. Let \<^verbatim>\<open>write(a)\<close> be called on an idle writer, and \<^verbatim>\<open>write(b)\<close> and then
  \<^verbatim>\<open>write(c)\<close> while the generation started by \<^verbatim>\<open>write(a)\<close> is still in flight, that
  is, before its rename completes (the three schedules below: both calls before the write
  to the temporary file completes, one before and one after, or both after); let that
  generation succeed. Then the promises returned for \<open>b\<close> and \<open>c\<close> are resolved with
  one and the same queued promise and share one resolution. The promise of \<^verbatim>\<open>write(a)\<close>
  does not settle when its own generation commits \<open>a\<close>: it stays pending, with those of
  \<open>b\<close> and \<open>c\<close>, until the generation run for \<open>c\<close> has ended as well. If that
  generation commits, all three promises are fulfilled, the file holds \<open>c\<close> and the
  writer is idle; if it fails with an \<^verbatim>\<open>Error\<close>, at the write to the temporary file or at
  the rename, all three promises, the one of \<^verbatim>\<open>write(a)\<close> included, are rejected with
  that error and the file keeps \<open>a\<close>.
\<close>

theorem write_a_then_b_and_c:
  assumes "pre \<in> {[Call a, Call b, Call c, Io Ok], [Call a, Call b, Io Ok, Call c],
                   [Call a, Io Ok, Call b, Call c]}"
  shows
  "let w = new_writer po file;
       s4 = run w pre;
       s5 = run s4 [Io Ok];
       e = Thrown True m
   in (\<exists>pa pb pc q. issued s4 = [pa, pb, pc] \<and>
          promises s4 pb = Adopts q \<and> promises s4 pc = Adopts q \<and> queued s4 = Some q) \<and>
      outcomes s4 = [Pending, Pending, Pending] \<and>
      outcomes s5 = [Pending, Pending, Pending] \<and> target_file s5 = Some a \<and> busy s5 \<and>
      outcomes (run s5 [Io Ok]) = [Pending, Pending, Pending] \<and>
      outcomes (run s5 [Io Ok, Io Ok]) = [Fulfilled, Fulfilled, Fulfilled] \<and>
      target_file (run s5 [Io Ok, Io Ok]) = Some c \<and>
      \<not> busy (run s5 [Io Ok, Io Ok]) \<and>
      outcomes (run s5 [Io (Throws e)]) = [Rejected e, Rejected e, Rejected e] \<and>
      target_file (run s5 [Io (Throws e)]) = Some a \<and>
      outcomes (run s5 [Io Ok, Io (Throws e)]) = [Rejected e, Rejected e, Rejected e] \<and>
      target_file (run s5 [Io Ok, Io (Throws e)]) = Some a"
proof -
  from assms consider "pre = [Call a, Call b, Call c, Io Ok]"
    | "pre = [Call a, Call b, Io Ok, Call c]" | "pre = [Call a, Io Ok, Call b, Call c]"
    by auto
  then show ?thesis
    unfolding Let_def
    by cases (simp_all add: compact_defs runtime_defs new_writer_def)
qed

theorem write_a_then_b_and_c_witness:
  "[Call ''A'', Call ''B'', Io Ok, Call ''C''] \<in>
     {[Call ''A'', Call ''B'', Call ''C'', Io Ok], [Call ''A'', Call ''B'', Io Ok, Call ''C''],
      [Call ''A'', Io Ok, Call ''B'', Call ''C'']} \<and>
   outcomes (run (new_writer plain_paths (PathString ''f''))
       [Call ''A'', Call ''B'', Io Ok, Call ''C'', Io Ok])
     = [Pending, Pending, Pending] \<and>
   target_file (run (new_writer plain_paths (PathString ''f''))
       [Call ''A'', Call ''B'', Io Ok, Call ''C'', Io Ok]) = Some ''A'' \<and>
   outcomes (run (new_writer plain_paths (PathString ''f''))
       [Call ''A'', Call ''B'', Io Ok, Call ''C'', Io Ok, Io Ok, Io Ok])
     = [Fulfilled, Fulfilled, Fulfilled] \<and>
   target_file (run (new_writer plain_paths (PathString ''f''))
       [Call ''A'', Call ''B'', Io Ok, Call ''C'', Io Ok, Io Ok, Io Ok]) = Some ''C'' \<and>
   outcomes (run (new_writer plain_paths (PathString ''f''))
       [Call ''A'', Call ''B'', Io Ok, Call ''C'', Io Ok, Io Ok, Io (Throws (Thrown True ''EIO''))])
     = [Rejected (Thrown True ''EIO''), Rejected (Thrown True ''EIO''),
        Rejected (Thrown True ''EIO'')]"
  using write_a_then_b_and_c[of "[Call ''A'', Call ''B'', Io Ok, Call ''C'']" "''A''" "''B''"
      "''C''" plain_paths "PathString ''f''" "''EIO''"]
  unfolding Let_def
  by (simp add: compact_defs runtime_defs new_writer_def)

subsection \<open>The two variants on an empty string\<close>

text \<open>
  C9. The two variants differ on the empty string. With \<^verbatim>\<open>write("A")\<close> and, while it
  is in flight, \<^verbatim>\<open>write("")\<close>, and all storage operations succeeding, the compact
  variant runs a second generation, leaves the file empty and fulfils both promises; the
  documented variant takes the buffered empty string for no payload: it runs one
  generation, leaves \<^verbatim>\<open>"A"\<close> in the file and the empty string in the buffer, goes idle,
  and the promise of \<^verbatim>\<open>write("")\<close> stays pending.
\<close>

theorem variants_differ_on_empty_string:
  "let w = new_writer po file;
       evs = [Call (Text ''A''), Call (Text ''''), Io Ok, Io Ok, Io Ok, Io Ok];
       sc = run w evs; sd = run_documented w evs
   in outcomes sc = [Fulfilled, Fulfilled] \<and> target_file sc = Some (Text '''') \<and>
      length (oplog sc) = 4 \<and> buffer sc = None \<and> \<not> busy sc \<and>
      outcomes sd = [Fulfilled, Pending] \<and> target_file sd = Some (Text ''A'') \<and>
      length (oplog sd) = 2 \<and> buffer sd = Some (Text '''') \<and> \<not> busy sd"
  unfolding Let_def by (simp add: compact_defs documented_defs runtime_defs new_writer_def Let_def)

subsection \<open>Runs\<close>

lemma run_Nil [simp]: "run st [] = st"
  by (simp add: run_def)

lemma run_Cons [simp]: "run st (ev # evs) = run (step st ev) evs"
  by (simp add: run_def)

lemma run_append: "run st (xs @ ys) = run (run st xs) ys"
  by (simp add: run_def)

lemma run_snoc: "run st (xs @ [ev]) = step (run st xs) ev"
  by (simp add: run_def)

lemma run_documented_Nil [simp]: "run_documented st [] = st"
  by (simp add: run_documented_def)

lemma run_documented_Cons [simp]:
  "run_documented st (ev # evs) = run_documented (step_documented st ev) evs"
  by (simp add: run_documented_def)

lemma run_documented_append:
  "run_documented st (xs @ ys) = run_documented (run_documented st xs) ys"
  by (simp add: run_documented_def)

subsection \<open>Settling promises and resuming the invocations that await them\<close>

lemma settle_pending: "ps p = Pending \<Longrightarrow> settle p c ps = ps(p := pstate_of c)"
  by (cases c) (simp_all add: fulfil_def reject_def)

lemma settle_other: "x \<noteq> p \<Longrightarrow> settle p c ps x = ps x"
  by (cases c) (simp_all add: fulfil_def reject_def)

lemma settle_adopts: "ps x = Adopts f \<Longrightarrow> settle p c ps x = Adopts f"
  by (cases c) (auto simp: fulfil_def reject_def)

lemma notified_other: "cur \<noteq> Some x \<Longrightarrow> notified cur r ps x = ps x"
  by (cases "(cur, r, ps)" rule: notified.cases) (auto simp: fulfil_def reject_def)

lemma notified_adopts: "ps x = Adopts f \<Longrightarrow> notified cur r ps x = Adopts f"
  by (cases "(cur, r, ps)" rule: notified.cases) (auto simp: fulfil_def reject_def)

lemma notified_current:
  "ps q = Pending \<Longrightarrow>
   notified (Some q) r ps q =
     (case r of Ok \<Rightarrow> Fulfilled | Throws e \<Rightarrow> if is_error e then Rejected e else Pending)"
  by (cases r) (simp_all add: fulfil_def reject_def)

lemma linked_settle: "linked f fs ps \<Longrightarrow> linked f fs (settle p c ps)"
  by (induction f fs ps rule: linked.induct) (auto simp: settle_adopts)

lemma linked_notified: "linked f fs ps \<Longrightarrow> linked f fs (notified cur r ps)"
  by (induction f fs ps rule: linked.induct) (auto simp: notified_adopts)

lemma linked_upd:
  "linked f fs ps \<Longrightarrow> \<forall>fr \<in> set fs. aw_awaited fr \<noteq> n \<Longrightarrow> linked f fs (ps(n := v))"
  by (induction f fs ps rule: linked.induct) auto

lemma linked_cong:
  "linked f fs ps \<Longrightarrow> \<forall>fr \<in> set fs. ps' (aw_awaited fr) = ps (aw_awaited fr) \<Longrightarrow>
   linked f fs ps'"
  by (induction f fs ps rule: linked.induct) auto

lemma linked_fresh:
  "linked f fs ps \<Longrightarrow> \<forall>fr \<in> set fs. aw_awaited fr < n \<Longrightarrow> linked f fs (ps(n := v))"
  by (rule linked_upd) auto

lemma linked_fresh2:
  "linked f fs ps \<Longrightarrow> \<forall>fr \<in> set fs. aw_awaited fr < n \<Longrightarrow>
   linked f fs (ps(n := v, Suc n := v'))"
  by (rule linked_upd, rule linked_upd) auto

text \<open>Once the innermost invocation has ended, every invocation awaiting it ends: each
  with the first thrown value met from the innermost invocation outwards, if any.\<close>

lemma unwind_linked:
  "linked f fs ps \<Longrightarrow> ps f = pstate_of c \<Longrightarrow> distinct (map aw_promise fs) \<Longrightarrow>
   \<forall>g \<in> set (map aw_promise fs). ps g = Pending \<Longrightarrow>
   fst (unwind fs ps) = [] \<and>
   (\<forall>x. x \<notin> set (map aw_promise fs) \<longrightarrow> snd (unwind fs ps) x = ps x) \<and>
   (\<forall>i < length fs. snd (unwind fs ps) (aw_promise (fs ! i)) =
        pstate_of (foldl override c (map aw_pending (take (Suc i) fs))))"
proof (induction fs arbitrary: f ps c)
  case Nil
  then show ?case by simp
next
  case (Cons fr fs)
  obtain g p c0 where fr: "fr = AwaitNext g p c0" by (cases fr)
  from Cons.prems fr have adopt: "p = f \<or> ps p = Adopts f" and lk: "linked g fs ps"
    and gpend: "ps g = Pending" and gnot: "g \<notin> set (map aw_promise fs)"
    and dist: "distinct (map aw_promise fs)"
    and pend: "\<forall>h \<in> set (map aw_promise fs). ps h = Pending"
    by auto
  let ?c' = "override c c0"
  let ?ps' = "settle g ?c' ps"
  have out: "outcome_of ps p = pstate_of c"
    using adopt Cons.prems(2) by (cases c) (auto simp: outcome_of_def)
  have step: "unwind (fr # fs) ps = unwind fs ?ps'"
    using out fr by (cases c) simp_all
  have ps'g: "?ps' g = pstate_of ?c'"
    using gpend by (simp add: settle_pending)
  have ps'other: "\<And>x. x \<noteq> g \<Longrightarrow> ?ps' x = ps x"
    by (simp add: settle_other)
  have pend': "\<forall>h \<in> set (map aw_promise fs). ?ps' h = Pending"
    using pend gnot ps'other by metis
  have IH: "fst (unwind fs ?ps') = [] \<and>
   (\<forall>x. x \<notin> set (map aw_promise fs) \<longrightarrow> snd (unwind fs ?ps') x = ?ps' x) \<and>
   (\<forall>i < length fs. snd (unwind fs ?ps') (aw_promise (fs ! i)) =
        pstate_of (foldl override ?c' (map aw_pending (take (Suc i) fs))))"
    by (rule Cons.IH[OF linked_settle[OF lk] ps'g dist pend'])
  show ?case
  proof (intro conjI allI impI)
    show "fst (unwind (fr # fs) ps) = []" using IH step by simp
  next
    fix x assume "x \<notin> set (map aw_promise (fr # fs))"
    then have "x \<noteq> g" "x \<notin> set (map aw_promise fs)" using fr by auto
    then show "snd (unwind (fr # fs) ps) x = ps x"
      using IH step ps'other by simp
  next
    fix i assume i: "i < length (fr # fs)"
    show "snd (unwind (fr # fs) ps) (aw_promise ((fr # fs) ! i)) =
        pstate_of (foldl override c (map aw_pending (take (Suc i) (fr # fs))))"
    proof (cases i)
      case 0
      have "snd (unwind fs ?ps') g = ?ps' g" using IH gnot by blast
      then show ?thesis using 0 step ps'g fr by simp
    next
      case (Suc j)
      then have "j < length fs" using i by simp
      then show ?thesis using IH Suc step fr by simp
    qed
  qed
qed

subsection \<open>The steps of the compact variant, case by case\<close>

lemma call_idle:
  "\<not> active st \<Longrightarrow>
   step st (Call c) =
     st\<lparr>active := True,
        promises := (promises st)(next_id st := Pending, Suc (next_id st) := Adopts (next_id st)),
        next_id := Suc (Suc (next_id st)),
        inflight := Some (IoFrame (next_id st) c WritingTmp),
        issued := issued st @ [Suc (next_id st)]\<rparr>"
  by (simp add: step_def write_compact_def flush_def Let_def)

lemma call_queue_first:
  "active st \<Longrightarrow> queued st = None \<Longrightarrow>
   step st (Call c) =
     st\<lparr>buffer := Some c, queued := Some (next_id st), waiting := Some (next_id st),
        promises := (promises st)(next_id st := Pending, Suc (next_id st) := Adopts (next_id st)),
        next_id := Suc (Suc (next_id st)),
        issued := issued st @ [Suc (next_id st)]\<rparr>"
  by (simp add: step_def write_compact_def defer_write_def Let_def)

lemma call_queue_more:
  "active st \<Longrightarrow> queued st = Some q \<Longrightarrow>
   step st (Call c) =
     st\<lparr>buffer := Some c,
        promises := (promises st)(next_id st := Adopts q),
        next_id := Suc (next_id st),
        issued := issued st @ [next_id st]\<rparr>"
  by (simp add: step_def write_compact_def defer_write_def Let_def)

lemma io_idle: "inflight st = None \<Longrightarrow> step st (Io r) = st"
  by (simp add: step_def io_done_def)

lemma io_written:
  "inflight st = Some (IoFrame f c WritingTmp) \<Longrightarrow>
   step st (Io Ok) =
     st\<lparr>tmp_file := Some c, oplog := WriteFile (tmp st) c Ok # oplog st,
        inflight := Some (IoFrame f c Renaming)\<rparr>"
  by (simp add: step_def io_done_def)

lemma io_end:
  "inflight st = Some (IoFrame f c sg) \<Longrightarrow> ends sg r \<Longrightarrow>
   step st (Io r) = flush_finally f (completion_of r) (after_try st c sg r)"
  by (cases sg; cases r; cases "current st")
     (simp_all add: step_def io_done_def after_try_def notify_done_def notify_fail_def)

lemma finally_buffered:
  "buffer st = Some b \<Longrightarrow>
   flush_finally f k st =
     st\<lparr>active := True, current := waiting st, waiting := None, queued := None, buffer := None,
        promises := (promises st)(next_id st := Pending, Suc (next_id st) := Adopts (next_id st)),
        next_id := Suc (Suc (next_id st)),
        inflight := Some (IoFrame (next_id st) b WritingTmp),
        suspended := AwaitNext f (Suc (next_id st)) k # suspended st\<rparr>"
  by (simp add: flush_finally_def write_compact_def flush_def Let_def)

lemma finally_drained:
  "buffer st = None \<Longrightarrow>
   flush_finally f k st =
     st\<lparr>active := False, current := waiting st, waiting := None, queued := None,
        promises := snd (unwind (suspended st) (settle f k (promises st))),
        suspended := fst (unwind (suspended st) (settle f k (promises st)))\<rparr>"
  by (simp add: flush_finally_def finish_def Let_def split: prod.splits)

lemma after_try_fields [simp]:
  "active (after_try st c sg r) = active st"
  "current (after_try st c sg r) = current st"
  "waiting (after_try st c sg r) = waiting st"
  "queued (after_try st c sg r) = queued st"
  "buffer (after_try st c sg r) = buffer st"
  "next_id (after_try st c sg r) = next_id st"
  "suspended (after_try st c sg r) = suspended st"
  "inflight (after_try st c sg r) = None"
  "issued (after_try st c sg r) = issued st"
  "tmp (after_try st c sg r) = tmp st"
  "target (after_try st c sg r) = target st"
  "promises (after_try st c sg r) = notified (current st) r (promises st)"
  by (simp_all add: after_try_def split: stage.splits io_result.splits)

lemma io_end_buffered:
  assumes "inflight st = Some (IoFrame f c sg)" "ends sg r" "buffer st = Some b"
  shows "step st (Io r) =
     (after_try st c sg r)\<lparr>active := True, current := waiting st, waiting := None,
        queued := None, buffer := None,
        promises := (notified (current st) r (promises st))
                      (next_id st := Pending, Suc (next_id st) := Adopts (next_id st)),
        next_id := Suc (Suc (next_id st)),
        inflight := Some (IoFrame (next_id st) b WritingTmp),
        suspended := AwaitNext f (Suc (next_id st)) (completion_of r) # suspended st\<rparr>"
  using assms by (simp add: io_end finally_buffered)

lemma io_end_drained_raw:
  assumes "inflight st = Some (IoFrame f c sg)" "ends sg r" "buffer st = None"
  shows "step st (Io r) =
     (after_try st c sg r)\<lparr>active := False, current := waiting st, waiting := None,
        queued := None,
        promises := drained_promises st f r,
        suspended := fst (unwind (suspended st)
            (settle f (completion_of r) (notified (current st) r (promises st))))\<rparr>"
  using assms by (simp add: io_end finally_drained drained_promises_def)

lemma not_ends: "\<not> ends sg r \<longleftrightarrow> sg = WritingTmp \<and> r = Ok"
  by (cases sg; cases r) simp_all

subsection \<open>The run-time invariant\<close>

lemma wf_inflightD:
  assumes "wf st" "inflight st = Some (IoFrame f c sg)"
  shows "active st" "queued st = waiting st"
    "f < next_id st" "promises st f = Pending" "current st \<noteq> Some f" "waiting st \<noteq> Some f"
    "f \<notin> aw_promise ` set (suspended st)" "distinct (map aw_promise (suspended st))"
    "linked f (suspended st) (promises st)"
    "\<forall>fr \<in> set (suspended st). aw_awaited fr < next_id st \<and> aw_promise fr < next_id st \<and>
        promises st (aw_promise fr) = Pending \<and> current st \<noteq> Some (aw_promise fr) \<and>
        waiting st \<noteq> Some (aw_promise fr)"
  using assms by (auto simp: wf_def frame_promises_def)

lemma wf_slotsD:
  assumes "wf st"
  shows "current st = Some q \<Longrightarrow> q < next_id st \<and> promises st q = Pending \<and> waiting st \<noteq> Some q"
    "waiting st = Some q \<Longrightarrow> q < next_id st \<and> promises st q = Pending \<and> current st \<noteq> Some q"
  using assms by (auto simp: wf_def)

lemma wf_idleD:
  assumes "wf st" "\<not> active st"
  shows "inflight st = None" "suspended st = []"
  using assms by (auto simp: wf_def)

lemma wf_call_idle: "wf st \<Longrightarrow> \<not> active st \<Longrightarrow> wf (step st (Call c))"
  by (simp add: call_idle) (auto simp: wf_def frame_promises_def)

lemma wf_call_queue_first:
  "wf st \<Longrightarrow> active st \<Longrightarrow> queued st = None \<Longrightarrow> wf (step st (Call c))"
  apply (simp add: call_queue_first)
  apply (clarsimp simp: wf_def frame_promises_def)
  apply (intro conjI allI impI ballI)
  by (auto simp: linked_fresh2 dest: less_SucI)

lemma wf_call_queue_more:
  "wf st \<Longrightarrow> active st \<Longrightarrow> queued st = Some q \<Longrightarrow> wf (step st (Call c))"
  apply (simp add: call_queue_more)
  apply (clarsimp simp: wf_def frame_promises_def)
  apply (intro conjI allI impI ballI)
  by (auto simp: linked_fresh dest: less_SucI)

lemma wf_io_written:
  "wf st \<Longrightarrow> inflight st = Some (IoFrame f c WritingTmp) \<Longrightarrow> wf (step st (Io Ok))"
  by (simp add: io_written) (auto simp: wf_def frame_promises_def)

lemma wf_buffered_state:
  assumes wf: "wf st" and inf: "inflight st = Some (IoFrame f c sg)"
    and old: "\<forall>x < next_id st. promises st' x = notified (current st) r (promises st) x"
    and psn: "promises st' (next_id st) = Pending"
    and p: "p = next_id st \<or> promises st' p = Adopts (next_id st)"
    and nid: "next_id st < next_id st'" "p < next_id st'"
    and st': "active st' \<and> current st' = waiting st \<and> waiting st' = None \<and>
      queued st' = None \<and> inflight st' = Some (IoFrame (next_id st) b WritingTmp) \<and>
      suspended st' = AwaitNext f p k # suspended st"
  shows "wf st'"
proof -
  note D = wf_inflightD[OF wf inf]
  let ?n = "next_id st"
  let ?ps = "promises st'"
  have old': "\<And>x. x < ?n \<Longrightarrow> current st \<noteq> Some x \<Longrightarrow> ?ps x = promises st x"
    using old by (simp add: notified_other)
  have lk0: "linked f (suspended st) (notified (current st) r (promises st))"
    by (rule linked_notified[OF D(9)])
  have lk': "linked f (suspended st) ?ps"
    by (rule linked_cong[OF lk0]) (use D(10) old in auto)
  have c4: "\<And>q. waiting st = Some q \<Longrightarrow>
      q < next_id st' \<and> ?ps q = Pending \<and> q \<noteq> ?n \<and> q \<noteq> f \<and>
      q \<notin> aw_promise ` set (suspended st)"
  proof -
    fix q assume q: "waiting st = Some q"
    from wf_slotsD(2)[OF wf q] have a: "q < ?n" "promises st q = Pending" "current st \<noteq> Some q"
      by auto
    have "?ps q = Pending" using old'[OF a(1) a(3)] a(2) by simp
    moreover have "q \<noteq> f" using D(6) q by auto
    moreover have "q \<notin> aw_promise ` set (suspended st)" using D(10) q by auto
    ultimately show "q < next_id st' \<and> ?ps q = Pending \<and> q \<noteq> ?n \<and> q \<noteq> f \<and>
      q \<notin> aw_promise ` set (suspended st)" using a(1) nid by auto
  qed
  have c6: "distinct (?n # f # map aw_promise (suspended st))"
    using D(3,7,8,10) by auto
  have c7: "\<forall>x \<in> set (?n # f # map aw_promise (suspended st)). x < next_id st' \<and> ?ps x = Pending"
  proof
    fix x assume "x \<in> set (?n # f # map aw_promise (suspended st))"
    then consider "x = ?n" | "x = f" | "x \<in> aw_promise ` set (suspended st)" by auto
    then show "x < next_id st' \<and> ?ps x = Pending"
    proof cases
      case 1 then show ?thesis using psn nid by auto
    next
      case 2 then show ?thesis using old'[OF D(3) D(5)] D(3,4) nid by auto
    next
      case 3
      then obtain fr where fr: "fr \<in> set (suspended st)" "x = aw_promise fr" by auto
      with D(10) have a: "x < ?n" "promises st x = Pending" "current st \<noteq> Some x" by auto
      show ?thesis using old'[OF a(1) a(3)] a(1,2) nid by auto
    qed
  qed
  have c8: "\<forall>fr \<in> set (suspended st). aw_awaited fr < next_id st'"
    using D(10) nid by auto
  show ?thesis
    unfolding wf_def frame_promises_def
    using st' c4 c6 c7 c8 nid lk' p by simp
qed

lemma wf_io_end_buffered:
  assumes wf: "wf st" and inf: "inflight st = Some (IoFrame f c sg)" and "ends sg r"
    and "buffer st = Some b"
  shows "wf (step st (Io r))"
  by (rule wf_buffered_state[OF wf inf, where r = r and p = "Suc (next_id st)" and b = b
        and k = "completion_of r"])
     (simp_all add: io_end_buffered[OF assms(2-4)])

lemma drained_unwind:
  assumes wf: "wf st" and inf: "inflight st = Some (IoFrame f c sg)"
  shows "fst (unwind (suspended st)
            (settle f (completion_of r) (notified (current st) r (promises st)))) = []"
    and "\<And>x. x \<noteq> f \<Longrightarrow> x \<notin> aw_promise ` set (suspended st) \<Longrightarrow>
          drained_promises st f r x = notified (current st) r (promises st) x"
    and "drained_promises st f r f = pstate_of (completion_of r)"
    and "\<And>i. i < length (suspended st) \<Longrightarrow>
          drained_promises st f r (aw_promise (suspended st ! i)) =
            pstate_of (foldl override (completion_of r)
                         (map aw_pending (take (Suc i) (suspended st))))"
proof -
  note D = wf_inflightD[OF wf inf]
  let ?ps1 = "notified (current st) r (promises st)"
  let ?ps2 = "settle f (completion_of r) ?ps1"
  have f1: "?ps1 f = Pending" using D(4,5) by (simp add: notified_other)
  have f2: "?ps2 f = pstate_of (completion_of r)" using f1 by (simp add: settle_pending)
  have lk: "linked f (suspended st) ?ps2"
    by (intro linked_settle linked_notified D(9))
  have pend: "\<forall>g \<in> set (map aw_promise (suspended st)). ?ps2 g = Pending"
  proof
    fix g assume "g \<in> set (map aw_promise (suspended st))"
    then obtain fr where fr: "fr \<in> set (suspended st)" "g = aw_promise fr" by auto
    with D(10) have a: "promises st g = Pending" "current st \<noteq> Some g" by auto
    have "g \<noteq> f" using D(7) fr by auto
    then show "?ps2 g = Pending" using a by (simp add: settle_other notified_other)
  qed
  note U = unwind_linked[OF lk f2 D(8) pend]
  show "fst (unwind (suspended st) ?ps2) = []" using U by simp
  show "\<And>x. x \<noteq> f \<Longrightarrow> x \<notin> aw_promise ` set (suspended st) \<Longrightarrow>
          drained_promises st f r x = ?ps1 x"
    using U by (simp add: drained_promises_def settle_other)
  show "drained_promises st f r f = pstate_of (completion_of r)"
    using U f2 D(7) by (simp add: drained_promises_def)
  show "\<And>i. i < length (suspended st) \<Longrightarrow>
          drained_promises st f r (aw_promise (suspended st ! i)) =
            pstate_of (foldl override (completion_of r)
                         (map aw_pending (take (Suc i) (suspended st))))"
    using U by (simp add: drained_promises_def)
qed

lemma io_end_drained:
  assumes "wf st" "inflight st = Some (IoFrame f c sg)" "ends sg r" "buffer st = None"
  shows "step st (Io r) =
     (after_try st c sg r)\<lparr>active := False, current := waiting st, waiting := None,
        queued := None, promises := drained_promises st f r, suspended := []\<rparr>"
  using io_end_drained_raw[OF assms(2-4)] drained_unwind(1)[OF assms(1,2)] by simp

lemma wf_drained_state:
  assumes wf: "wf st" and inf: "inflight st = Some (IoFrame f c sg)"
    and st': "\<not> active st' \<and> current st' = waiting st \<and> waiting st' = None \<and>
      queued st' = None \<and> promises st' = drained_promises st f r \<and>
      next_id st' = next_id st \<and> inflight st' = None \<and> suspended st' = []"
  shows "wf st'"
proof -
  note D = wf_inflightD[OF wf inf]
  have c4: "\<And>q. waiting st = Some q \<Longrightarrow>
      q < next_id st \<and> drained_promises st f r q = Pending"
  proof -
    fix q assume q: "waiting st = Some q"
    from wf_slotsD(2)[OF wf q] have a: "q < next_id st" "promises st q = Pending"
      "current st \<noteq> Some q" by auto
    have "q \<noteq> f" using D(6) q by auto
    moreover have "q \<notin> aw_promise ` set (suspended st)" using D(10) q by auto
    ultimately have "drained_promises st f r q = notified (current st) r (promises st) q"
      by (rule drained_unwind(2)[OF wf inf])
    then show "q < next_id st \<and> drained_promises st f r q = Pending"
      using a by (simp add: notified_other)
  qed
  show ?thesis
    unfolding wf_def frame_promises_def
    using c4 st' by simp
qed

lemma wf_io_end_drained:
  assumes wf: "wf st" and inf: "inflight st = Some (IoFrame f c sg)" and "ends sg r"
    and "buffer st = None"
  shows "wf (step st (Io r))"
  by (rule wf_drained_state[OF wf inf, where r = r]) (simp add: io_end_drained[OF assms])

lemma wf_step: "wf st \<Longrightarrow> wf (step st ev)"
proof (cases ev)
  case (Call c)
  assume wf: "wf st"
  show ?thesis
  proof (cases "active st")
    case False then show ?thesis using wf Call by (simp add: wf_call_idle)
  next
    case True
    then show ?thesis using wf Call
      by (cases "queued st") (simp_all add: wf_call_queue_first wf_call_queue_more)
  qed
next
  case (Io r)
  assume wf: "wf st"
  show ?thesis
  proof (cases "inflight st")
    case None then show ?thesis using wf Io by (simp add: io_idle)
  next
    case (Some fr)
    obtain f c sg where fr: "fr = IoFrame f c sg" by (cases fr)
    show ?thesis
    proof (cases "ends sg r")
      case True
      then show ?thesis using wf Io Some fr
        by (cases "buffer st") (simp_all add: wf_io_end_buffered wf_io_end_drained)
    next
      case False
      then have "sg = WritingTmp" "r = Ok" by (simp_all add: not_ends)
      then show ?thesis using wf Io Some fr by (simp add: wf_io_written)
    qed
  qed
qed

lemma wf_run: "wf st \<Longrightarrow> wf (run st evs)"
  by (induction evs arbitrary: st) (simp_all add: wf_step)

lemma wf_new: "wf (new_writer po file)"
  by (simp add: wf_def new_writer_def frame_promises_def)

subsection \<open>Paths and queue slots along a run\<close>

lemma step_cases [case_names CallIdle CallFirst CallMore IoIdle IoWritten IoBuffered IoDrained]:
  fixes st :: "'c world" and ev :: "'c event"
  assumes "\<And>c. ev = Call c \<Longrightarrow> \<not> active st \<Longrightarrow> P"
    and "\<And>c. ev = Call c \<Longrightarrow> active st \<Longrightarrow> queued st = None \<Longrightarrow> P"
    and "\<And>c q. ev = Call c \<Longrightarrow> active st \<Longrightarrow> queued st = Some q \<Longrightarrow> P"
    and "\<And>r. ev = Io r \<Longrightarrow> inflight st = None \<Longrightarrow> P"
    and "\<And>f c. ev = Io Ok \<Longrightarrow> inflight st = Some (IoFrame f c WritingTmp) \<Longrightarrow> P"
    and "\<And>r f c sg b. ev = Io r \<Longrightarrow> inflight st = Some (IoFrame f c sg) \<Longrightarrow> ends sg r \<Longrightarrow>
           buffer st = Some b \<Longrightarrow> P"
    and "\<And>r f c sg. ev = Io r \<Longrightarrow> inflight st = Some (IoFrame f c sg) \<Longrightarrow> ends sg r \<Longrightarrow>
           buffer st = None \<Longrightarrow> P"
  shows P
proof (cases ev)
  case (Call c)
  then show ?thesis using assms(1-3) by (cases "active st"; cases "queued st") auto
next
  case (Io r)
  show ?thesis
  proof (cases "inflight st")
    case None then show ?thesis using Io assms(4) by simp
  next
    case (Some fr)
    obtain f c sg where fr: "fr = IoFrame f c sg" by (cases fr)
    show ?thesis
    proof (cases "ends sg r")
      case True
      then show ?thesis using Io Some fr assms(6,7) by (cases "buffer st") auto
    next
      case False
      then show ?thesis using Io Some fr assms(5) by (simp add: not_ends)
    qed
  qed
qed

lemma paths_step: "tmp (step st ev) = tmp st \<and> target (step st ev) = target st"
  by (cases rule: step_cases[of ev st])
     (simp_all add: call_idle call_queue_first call_queue_more io_idle io_written
        io_end_buffered io_end_drained_raw)

lemma paths_run: "tmp (run st evs) = tmp st \<and> target (run st evs) = target st"
  by (induction evs arbitrary: st) (simp_all add: paths_step)

lemma after_try_oplog:
  "oplog (after_try st c sg r) =
     (case sg of WritingTmp \<Rightarrow> WriteFile (tmp st) c r | Renaming \<Rightarrow> Rename (tmp st) (target st) r)
     # oplog st"
  by (simp add: after_try_def split: stage.splits io_result.splits)

lemma oplog_step:
  "list_all (own_op (tmp st) (target st)) (oplog st) \<Longrightarrow>
   list_all (own_op (tmp st) (target st)) (oplog (step st ev))"
  by (cases rule: step_cases[of ev st])
     (simp_all add: call_idle call_queue_first call_queue_more io_idle io_written
        io_end_buffered io_end_drained_raw after_try_oplog split: stage.splits)

lemma oplog_run:
  "list_all (own_op (tmp st) (target st)) (oplog st) \<Longrightarrow>
   list_all (own_op (tmp st) (target st)) (oplog (run st evs))"
proof (induction evs arbitrary: st)
  case Nil then show ?case by simp
next
  case (Cons ev evs)
  have "list_all (own_op (tmp (step st ev)) (target (step st ev))) (oplog (step st ev))"
    using oplog_step[OF Cons.prems] by (simp add: paths_step)
  from Cons.IH[OF this] show ?case by (simp add: paths_step)
qed

lemma slots_step: "slots st \<Longrightarrow> slots (step st ev)"
  by (cases rule: step_cases[of ev st])
     (auto simp: slots_def call_idle call_queue_first call_queue_more io_idle io_written
        io_end_buffered io_end_drained_raw)

lemma slots_run: "slots st \<Longrightarrow> slots (run st evs)"
  by (induction evs arbitrary: st) (simp_all add: slots_step)

lemma slots_new: "slots (new_writer po file)"
  by (simp add: slots_def new_writer_def)

lemma call_buffer: "active st \<Longrightarrow> buffer (step st (Call c)) = Some c"
  by (cases "queued st") (simp_all add: call_queue_first call_queue_more)

text \<open>
  C8. The temporary path is \<^verbatim>\<open>join(dirname(p), "." + basename(p) + ".tmp")\<close> for the
  target \<open>p\<close> (the string itself, the decoded buffer, or the path of the file URL): the
  hidden-file dot and the \<^verbatim>\<open>.tmp\<close> suffix around the file name, in the directory of
  the target. It is a function of the target alone, the constructor stores it, and no
  operation changes it or the target afterwards: after any events the fields still hold
  the values of construction, and every storage operation that has completed was a
  write to that temporary path or a rename of it to the target.
\<close>

theorem temp_path_fixed_at_construction:
  "temp po (PathString s) = join po (dirname po s) (''.'' @ basename po s @ ''.tmp'') \<and>
   temp po (PathBuffer b) =
     join po (dirname po (bufferToString po b))
       (''.'' @ basename po (bufferToString po b) @ ''.tmp'') \<and>
   temp po (PathURL u) =
     join po (dirname po (fileURLToPath po u))
       (''.'' @ basename po (fileURLToPath po u) @ ''.tmp'') \<and>
   tmp (new_writer po file :: 'c world) = temp po file \<and>
   tmp (run (new_writer po file) (evs :: 'c event list)) = temp po file \<and>
   target (run (new_writer po file) evs) = file \<and>
   path (run (new_writer po file) evs) = file \<and>
   list_all (own_op (temp po file) file) (oplog (run (new_writer po file) evs))"
proof -
  have "list_all (own_op (tmp (new_writer po file :: 'c world))
                   (target (new_writer po file :: 'c world)))
          (oplog (run (new_writer po file) evs))"
    by (rule oplog_run) (simp add: new_writer_def)
  moreover have "tmp (new_writer po file :: 'c world) = temp po file"
    "target (new_writer po file :: 'c world) = file"
    by (simp_all add: new_writer_def)
  moreover have "temp po (PathString s) =
      join po (dirname po s) (''.'' @ basename po s @ ''.tmp'')"
    "temp po (PathBuffer b) =
      join po (dirname po (bufferToString po b))
        (''.'' @ basename po (bufferToString po b) @ ''.tmp'')"
    "temp po (PathURL u) =
      join po (dirname po (fileURLToPath po u))
        (''.'' @ basename po (fileURLToPath po u) @ ''.tmp'')"
    by (simp_all add: temp_def Let_def)
  ultimately show ?thesis
    by (simp add: paths_run path_def)
qed

text \<open>
  C6. The buffer of the compact variant is a single slot. In every state reached from
  construction it is empty exactly when no queued promise waits for a next generation,
  and it is empty whenever the writer is idle; a \<^verbatim>\<open>write(c)\<close> arriving while a write is
  active leaves exactly \<open>c\<close> in it, whatever was buffered before.
\<close>

theorem single_buffer_slot:
  "(buffer (run (new_writer po file) evs) = None \<longleftrightarrow>
      waiting (run (new_writer po file) evs) = None) \<and>
   (buffer (run (new_writer po file) evs) = None \<longleftrightarrow>
      queued (run (new_writer po file) evs) = None) \<and>
   (\<not> active (run (new_writer po file) evs) \<longrightarrow>
      buffer (run (new_writer po file) evs) = None) \<and>
   (active (run (new_writer po file) evs) \<longrightarrow>
      buffer (step (run (new_writer po file) evs) (Call c)) = Some c)"
proof -
  have "slots (run (new_writer po file) evs)"
    by (rule slots_run[OF slots_new])
  then show ?thesis
    by (auto simp: slots_def call_buffer)
qed

theorem single_buffer_slot_witness:
  "active (run (new_writer plain_paths (PathString ''f'')) [Call ''A'', Call ''B'']) \<and>
   buffer (run (new_writer plain_paths (PathString ''f'')) [Call ''A'', Call ''B''])
     = Some ''B'' \<and>
   buffer (step (run (new_writer plain_paths (PathString ''f'')) [Call ''A'', Call ''B''])
             (Call ''C'')) = Some ''C'' \<and>
   \<not> active (run (new_writer plain_paths (PathString ''f'')) [Call ''A'', Io Ok, Io Ok]) \<and>
   buffer (run (new_writer plain_paths (PathString ''f'')) [Call ''A'', Io Ok, Io Ok]) = None"
  using single_buffer_slot[of plain_paths "PathString ''f''" "[Call ''A'', Call ''B'']" "''C''"]
    single_buffer_slot[of plain_paths "PathString ''f''" "[Call ''A'', Io Ok, Io Ok]" "''C''"]
  by (simp add: compact_defs runtime_defs new_writer_def)

subsection \<open>The steps of the documented variant, case by case\<close>














subsection \<open>Promises nobody can settle\<close>

lemma unwind_frames: "set (fst (unwind fs ps)) \<subseteq> set fs"
proof (induction fs arbitrary: ps)
  case Nil then show ?case by simp
next
  case (Cons fr fs)
  obtain g p c where fr: "fr = AwaitNext g p c" by (cases fr)
  show ?case
  proof (cases "outcome_of ps p")
    case Fulfilled
    then show ?thesis using Cons.IH[of "settle g c ps"] fr by auto
  next
    case (Rejected e)
    then show ?thesis using Cons.IH[of "settle g (Throw e) ps"] fr
      by (auto simp del: settle.simps)
  qed (simp_all add: fr)
qed

lemma unwind_other: "x \<notin> aw_promise ` set fs \<Longrightarrow> snd (unwind fs ps) x = ps x"
proof (induction fs arbitrary: ps)
  case Nil then show ?case by simp
next
  case (Cons fr fs)
  obtain g p c where fr: "fr = AwaitNext g p c" by (cases fr)
  from Cons.prems fr have x: "x \<noteq> g" "x \<notin> aw_promise ` set fs" by auto
  show ?case
  proof (cases "outcome_of ps p")
    case Fulfilled
    then show ?thesis using Cons.IH[OF x(2), of "settle g c ps"] fr x(1)
      by (simp add: settle_other del: settle.simps)
  next
    case (Rejected e)
    then show ?thesis using Cons.IH[OF x(2), of "settle g (Throw e) ps"] fr x(1)
      by (simp add: settle_other del: settle.simps)
  qed (simp_all add: fr)
qed

lemma drained_other:
  "x \<noteq> f \<Longrightarrow> x \<notin> aw_promise ` set (suspended st) \<Longrightarrow> current st \<noteq> Some x \<Longrightarrow>
   drained_promises st f r x = promises st x"
  by (simp add: drained_promises_def unwind_other settle_other notified_other)

lemma unreferenced_step:
  "unreferenced st x \<Longrightarrow>
   unreferenced (step st ev) x \<and> promises (step st ev) x = promises st x"
proof (cases rule: step_cases[of ev st])
  case (IoDrained r f c sg)
  assume u: "unreferenced st x"
  have "x \<notin> aw_promise ` set (fst (unwind (suspended st)
            (settle f (completion_of r) (notified (current st) r (promises st)))))"
    using u unwind_frames[of "suspended st"] by (auto simp: unreferenced_def frame_promises_def)
  then show ?thesis using u IoDrained
    by (auto simp: io_end_drained_raw unreferenced_def frame_promises_def drained_other)
qed (auto simp: unreferenced_def frame_promises_def call_idle call_queue_first call_queue_more
       io_idle io_written io_end_buffered notified_other)

lemma unreferenced_run:
  "unreferenced st x \<Longrightarrow>
   unreferenced (run st evs) x \<and> promises (run st evs) x = promises st x"
proof (induction evs arbitrary: st)
  case Nil then show ?case by simp
next
  case (Cons ev evs)
  from unreferenced_step[OF Cons.prems]
  have a: "unreferenced (step st ev) x" "promises (step st ev) x = promises st x" by auto
  from Cons.IH[OF a(1)] a(2) show ?case by simp
qed



subsection \<open>A generation that fails\<close>

lemma ends_Throws [simp]: "ends sg (Throws e)"
  by (cases sg) simp_all

lemma throw_step:
  assumes wf: "wf st" and inf: "inflight st = Some (IoFrame f c sg)"
  shows "current (step st (Io (Throws e))) = waiting st"
    and "waiting (step st (Io (Throws e))) = None"
    and "queued (step st (Io (Throws e))) = None"
    and "buffer (step st (Io (Throws e))) = None"
    and "active (step st (Io (Throws e))) \<longleftrightarrow> buffer st \<noteq> None"
    and "buffer st = None \<Longrightarrow>
           promises (step st (Io (Throws e))) f = Rejected e \<and>
           suspended (step st (Io (Throws e))) = [] \<and>
           inflight (step st (Io (Throws e))) = None"
    and "buffer st = Some b \<Longrightarrow>
           suspended (step st (Io (Throws e))) =
             AwaitNext f (Suc (next_id st)) (Throw e) # suspended st \<and>
           inflight (step st (Io (Throws e))) = Some (IoFrame (next_id st) b WritingTmp)"
    and "current st = Some q \<Longrightarrow>
           promises (step st (Io (Throws e))) q = (if is_error e then Rejected e else Pending) \<and>
           unreferenced (step st (Io (Throws e))) q"
proof -
  note D = wf_inflightD[OF wf inf]
  let ?st' = "step st (Io (Throws e))"
  have dr: "buffer st = None \<Longrightarrow> ?st' =
     (after_try st c sg (Throws e))\<lparr>active := False, current := waiting st, waiting := None,
        queued := None, promises := drained_promises st f (Throws e), suspended := []\<rparr>"
    by (rule io_end_drained[OF wf inf]) simp_all
  have bu: "\<And>b. buffer st = Some b \<Longrightarrow> ?st' =
     (after_try st c sg (Throws e))\<lparr>active := True, current := waiting st, waiting := None,
        queued := None, buffer := None,
        promises := (notified (current st) (Throws e) (promises st))
                      (next_id st := Pending, Suc (next_id st) := Adopts (next_id st)),
        next_id := Suc (Suc (next_id st)),
        inflight := Some (IoFrame (next_id st) b WritingTmp),
        suspended := AwaitNext f (Suc (next_id st)) (Throw e) # suspended st\<rparr>"
    using io_end_buffered[OF inf, of "Throws e"] by simp
  show "current ?st' = waiting st" "waiting ?st' = None" "queued ?st' = None"
    "buffer ?st' = None" "active ?st' \<longleftrightarrow> buffer st \<noteq> None"
    by (cases "buffer st"; simp add: dr bu)+
  show "buffer st = None \<Longrightarrow>
           promises ?st' f = Rejected e \<and> suspended ?st' = [] \<and> inflight ?st' = None"
    using drained_unwind(3)[OF wf inf, of "Throws e"] by (simp add: dr)
  show "buffer st = Some b \<Longrightarrow>
           suspended ?st' = AwaitNext f (Suc (next_id st)) (Throw e) # suspended st \<and>
           inflight ?st' = Some (IoFrame (next_id st) b WritingTmp)"
    by (simp add: bu)
  show "current st = Some q \<Longrightarrow>
           promises ?st' q = (if is_error e then Rejected e else Pending) \<and>
           unreferenced ?st' q"
  proof -
    assume q: "current st = Some q"
    from wf_slotsD(1)[OF wf q] have a: "q < next_id st" "promises st q = Pending"
      "waiting st \<noteq> Some q" by auto
    have qf: "q \<noteq> f" using D(5) q by auto
    have qs: "q \<notin> aw_promise ` set (suspended st)" using D(10) q by auto
    have n: "notified (current st) (Throws e) (promises st) q =
        (if is_error e then Rejected e else Pending)"
      using q a(2) by (simp add: reject_def)
    show ?thesis
    proof (cases "buffer st")
      case None
      have "drained_promises st f (Throws e) q = notified (current st) (Throws e) (promises st) q"
        by (rule drained_unwind(2)[OF wf inf qf qs])
      then show ?thesis using n a
        by (simp add: dr[OF None] unreferenced_def frame_promises_def)
    next
      case (Some b)
      show ?thesis using n a qf qs
        by (simp add: bu[OF Some] unreferenced_def frame_promises_def)
    qed
  qed
qed




subsection \<open>Promises resolved with another promise\<close>

lemma unwind_adopts: "ps x = Adopts f \<Longrightarrow> snd (unwind fs ps) x = Adopts f"
proof (induction fs arbitrary: ps)
  case Nil then show ?case by simp
next
  case (Cons fr fs)
  obtain g p c where fr: "fr = AwaitNext g p c" by (cases fr)
  show ?case
  proof (cases "outcome_of ps p")
    case Fulfilled
    then show ?thesis using Cons.IH[of "settle g c ps"] Cons.prems fr
      by (simp add: settle_adopts del: settle.simps)
  next
    case (Rejected e)
    then show ?thesis using Cons.IH[of "settle g (Throw e) ps"] Cons.prems fr
      by (simp add: settle_adopts del: settle.simps)
  qed (simp_all add: fr Cons.prems)
qed

lemma drained_adopts:
  "promises st x = Adopts q \<Longrightarrow> drained_promises st f r x = Adopts q"
  by (simp add: drained_promises_def unwind_adopts settle_adopts notified_adopts)

lemma wf_frames_bound:
  "wf st \<Longrightarrow> inflight st = Some (IoFrame f c sg) \<Longrightarrow> next_id st \<le> x \<Longrightarrow>
   x \<noteq> f \<and> x \<notin> aw_promise ` set (suspended st) \<and> current st \<noteq> Some x"
  by (fastforce simp: wf_def frame_promises_def)

lemma unused_step:
  assumes wf: "wf st" and u: "unused st"
  shows "unused (step st ev)"
proof (cases rule: step_cases[of ev st])
  case (IoBuffered r f c sg b)
  have "\<And>x. next_id st \<le> x \<Longrightarrow> notified (current st) r (promises st) x = Pending"
    using wf_frames_bound[OF wf IoBuffered(2)] u by (simp add: notified_other unused_def)
  then show ?thesis
    by (simp add: IoBuffered(1) io_end_buffered[OF IoBuffered(2-4)] unused_def)
next
  case (IoDrained r f c sg)
  have "\<And>x. next_id st \<le> x \<Longrightarrow> drained_promises st f r x = Pending"
    using wf_frames_bound[OF wf IoDrained(2)] u by (simp add: drained_other unused_def)
  then show ?thesis
    by (simp add: IoDrained(1) io_end_drained[OF wf IoDrained(2-4)] unused_def)
qed (use u in \<open>auto simp: unused_def call_idle call_queue_first call_queue_more io_idle io_written\<close>)

lemma unused_run: "wf st \<Longrightarrow> unused st \<Longrightarrow> unused (run st evs)"
  by (induction evs arbitrary: st) (simp_all add: unused_step wf_step)

lemma unused_new: "unused (new_writer po file)"
  by (simp add: unused_def new_writer_def)

lemma adopts_step:
  assumes wf: "wf st" and u: "unused st" and a: "promises st p = Adopts q"
  shows "promises (step st ev) p = Adopts q"
proof -
  have lt: "p < next_id st"
  proof (rule ccontr)
    assume "\<not> p < next_id st"
    then have "promises st p = Pending" using u by (simp add: unused_def)
    then show False using a by simp
  qed
  show ?thesis
  proof (cases rule: step_cases[of ev st])
    case (IoBuffered r f c sg b)
    then show ?thesis using a lt
      by (simp add: io_end_buffered[OF IoBuffered(2-4)] notified_adopts)
  next
    case (IoDrained r f c sg)
    then show ?thesis using a
      by (simp add: io_end_drained[OF wf IoDrained(2-4)] drained_adopts)
  qed (use a lt in \<open>auto simp: call_idle call_queue_first call_queue_more io_idle io_written\<close>)
qed

lemma adopts_run:
  "wf st \<Longrightarrow> unused st \<Longrightarrow> promises st p = Adopts q \<Longrightarrow> promises (run st evs) p = Adopts q"
  by (induction evs arbitrary: st) (simp_all add: adopts_step unused_step wf_step)

lemma reachable: "wf (run (new_writer po file) evs) \<and> unused (run (new_writer po file) evs)"
  by (simp add: wf_run wf_new unused_run unused_new)

lemma after_try_files:
  "target_file (after_try st c sg (Throws e)) = target_file st"
  by (simp add: after_try_def split: stage.splits)

text \<open>
  C2, as the claim states it, fails: \<^verbatim>\<open>write("B")\<close> is coalesced into the second
  generation, which fails at the write to the temporary file with a thrown value that is
  not an \<^verbatim>\<open>Error\<close>; the caller of \<^verbatim>\<open>write("B")\<close> is not rejected: its promise is
  pending once the generation has failed, and still pending after a later write has
  completed. And when the generation of \<^verbatim>\<open>"A"\<close> fails with the error \<open>E1\<close> while
  \<^verbatim>\<open>"B"\<close> is buffered, the write sequence of \<^verbatim>\<open>"A"\<close> is not rejected at once: it
  awaits the write of \<^verbatim>\<open>"B"\<close>, and is rejected with that generation's error
  \<open>E2\<close> in the end.
\<close>

theorem coalesced_caller_not_rejected:
  "oplog (run (new_writer plain_paths (PathString ''f''))
       [Call ''A'', Call ''B'', Io Ok, Io Ok, Io (Throws (Thrown False ''boom''))])
     = [WriteFile (temp plain_paths (PathString ''f'')) ''B'' (Throws (Thrown False ''boom'')),
        Rename (temp plain_paths (PathString ''f'')) (PathString ''f'') Ok,
        WriteFile (temp plain_paths (PathString ''f'')) ''A'' Ok] \<and>
   outcomes (run (new_writer plain_paths (PathString ''f''))
       [Call ''A'', Call ''B'', Io Ok, Io Ok, Io (Throws (Thrown False ''boom''))])
     = [Rejected (Thrown False ''boom''), Pending] \<and>
   outcomes (run (new_writer plain_paths (PathString ''f''))
       [Call ''A'', Call ''B'', Io Ok, Io Ok, Io (Throws (Thrown False ''boom'')),
        Call ''C'', Io Ok, Io Ok])
     = [Rejected (Thrown False ''boom''), Pending, Fulfilled] \<and>
   outcomes (run (new_writer plain_paths (PathString ''f''))
       [Call ''A'', Call ''B'', Io (Throws (Thrown True ''E1''))])
     = [Pending, Pending] \<and>
   outcomes (run (new_writer plain_paths (PathString ''f''))
       [Call ''A'', Call ''B'', Io (Throws (Thrown True ''E1'')),
        Io (Throws (Thrown True ''E2''))])
     = [Rejected (Thrown True ''E2''), Rejected (Thrown True ''E2'')]"
  by (simp add: compact_defs runtime_defs new_writer_def)

text \<open>
  C2, amended. Let a generation be in flight in a state reached from construction, and
  let its operation in flight, the write to the temporary file or the rename, throw \<open>e\<close>.
  Then every caller coalesced into that generation, that is every promise resolved with
  the queued promise whose resolving functions are in \<^verbatim>\<open>#current\<close>, is rejected with
  \<open>e\<close> when \<open>e\<close> is an \<^verbatim>\<open>Error\<close> and is left pending when it is not. The write
  sequence rethrows \<open>e\<close>: with nothing buffered its promise is rejected with \<open>e\<close>, and
  with a payload buffered it awaits the next write with \<open>e\<close> as its pending completion.
  The cleanup has run once: the waiting pair is promoted to \<^verbatim>\<open>#current\<close>, the queue
  slots and the buffer are empty, one failed operation was logged and the target file is
  untouched. A buffered payload gets its own write attempt, and the writer is active
  afterwards exactly when that attempt is in flight.
\<close>

theorem failed_generation:
  "let st = run (new_writer po file) evs; st' = step st (Io (Throws e))
   in inflight st = Some (IoFrame f c sg) \<longrightarrow>
        (\<forall>q p. current st = Some q \<and> promises st p = Adopts q \<longrightarrow>
            outcome st' p = (if is_error e then Rejected e else Pending)) \<and>
        (buffer st = None \<longrightarrow>
            promises st' f = Rejected e \<and> inflight st' = None \<and> suspended st' = []) \<and>
        (\<forall>b. buffer st = Some b \<longrightarrow>
            inflight st' = Some (IoFrame (next_id st) b WritingTmp) \<and>
            suspended st' = AwaitNext f (Suc (next_id st)) (Throw e) # suspended st) \<and>
        current st' = waiting st \<and> waiting st' = None \<and> queued st' = None \<and>
        buffer st' = None \<and>
        oplog st' =
          (case sg of WritingTmp \<Rightarrow> WriteFile (tmp st) c (Throws e)
                    | Renaming \<Rightarrow> Rename (tmp st) (target st) (Throws e)) # oplog st \<and>
        target_file st' = target_file st \<and>
        (active st' \<longleftrightarrow> buffer st \<noteq> None) \<and> (active st' \<longleftrightarrow> inflight st' \<noteq> None)"
proof -
  let ?st = "run (new_writer po file) evs"
  let ?st' = "step ?st (Io (Throws e))"
  have wf: "wf ?st" and un: "unused ?st" using reachable by auto
  have wf': "wf ?st'" by (rule wf_step[OF wf])
  show ?thesis
    unfolding Let_def
  proof (rule impI)
    assume inf: "inflight ?st = Some (IoFrame f c sg)"
    note T = throw_step[OF wf inf]
    have callers: "\<forall>q p. current ?st = Some q \<and> promises ?st p = Adopts q \<longrightarrow>
            outcome ?st' p = (if is_error e then Rejected e else Pending)"
    proof (intro allI impI, elim conjE)
      fix q p assume q: "current ?st = Some q" and p: "promises ?st p = Adopts q"
      have "promises ?st' p = Adopts q" by (rule adopts_step[OF wf un p])
      then show "outcome ?st' p = (if is_error e then Rejected e else Pending)"
        using T(8)[OF q, of e] by (simp add: outcome_def outcome_of_def)
    qed
    have log: "oplog ?st' =
          (case sg of WritingTmp \<Rightarrow> WriteFile (tmp ?st) c (Throws e)
                    | Renaming \<Rightarrow> Rename (tmp ?st) (target ?st) (Throws e)) # oplog ?st"
      "target_file ?st' = target_file ?st"
      by (cases "buffer ?st";
          simp add: io_end_buffered[OF inf] io_end_drained[OF wf inf] after_try_oplog
            after_try_files)+
    have act: "active ?st' \<longleftrightarrow> inflight ?st' \<noteq> None"
      using wf' by (simp add: wf_def)
    show "(\<forall>q p. current ?st = Some q \<and> promises ?st p = Adopts q \<longrightarrow>
            outcome ?st' p = (if is_error e then Rejected e else Pending)) \<and>
        (buffer ?st = None \<longrightarrow>
            promises ?st' f = Rejected e \<and> inflight ?st' = None \<and> suspended ?st' = []) \<and>
        (\<forall>b. buffer ?st = Some b \<longrightarrow>
            inflight ?st' = Some (IoFrame (next_id ?st) b WritingTmp) \<and>
            suspended ?st' = AwaitNext f (Suc (next_id ?st)) (Throw e) # suspended ?st) \<and>
        current ?st' = waiting ?st \<and> waiting ?st' = None \<and> queued ?st' = None \<and>
        buffer ?st' = None \<and>
        oplog ?st' =
          (case sg of WritingTmp \<Rightarrow> WriteFile (tmp ?st) c (Throws e)
                    | Renaming \<Rightarrow> Rename (tmp ?st) (target ?st) (Throws e)) # oplog ?st \<and>
        target_file ?st' = target_file ?st \<and>
        (active ?st' \<longleftrightarrow> buffer ?st \<noteq> None) \<and> (active ?st' \<longleftrightarrow> inflight ?st' \<noteq> None)"
      using callers log act T(1-5) T(6) T(7) by simp
  qed
qed

theorem failed_generation_witness:
  "inflight (run (new_writer plain_paths (PathString ''f''))
       [Call ''A'', Call ''B'', Io Ok, Io Ok, Call ''C'', Io Ok])
     = Some (IoFrame 4 ''B'' Renaming) \<and>
   current (run (new_writer plain_paths (PathString ''f''))
       [Call ''A'', Call ''B'', Io Ok, Io Ok, Call ''C'', Io Ok]) = Some 2 \<and>
   promises (run (new_writer plain_paths (PathString ''f''))
       [Call ''A'', Call ''B'', Io Ok, Io Ok, Call ''C'', Io Ok]) 3 = Adopts 2 \<and>
   buffer (run (new_writer plain_paths (PathString ''f''))
       [Call ''A'', Call ''B'', Io Ok, Io Ok, Call ''C'', Io Ok]) = Some ''C'' \<and>
   outcome (run (new_writer plain_paths (PathString ''f''))
       [Call ''A'', Call ''B'', Io Ok, Io Ok, Call ''C'', Io Ok,
        Io (Throws (Thrown True ''EXDEV''))]) 3 = Rejected (Thrown True ''EXDEV'') \<and>
   inflight (run (new_writer plain_paths (PathString ''f''))
       [Call ''A'', Call ''B'', Io Ok, Io Ok, Call ''C'', Io Ok,
        Io (Throws (Thrown True ''EXDEV''))]) = Some (IoFrame 8 ''C'' WritingTmp) \<and>
   target_file (run (new_writer plain_paths (PathString ''f''))
       [Call ''A'', Call ''B'', Io Ok, Io Ok, Call ''C'', Io Ok,
        Io (Throws (Thrown True ''EXDEV''))]) = Some ''A''"
  using failed_generation[of plain_paths "PathString ''f''"
      "[Call ''A'', Call ''B'', Io Ok, Io Ok, Call ''C'', Io Ok]" "Thrown True ''EXDEV''"
      4 "''B''" Renaming]
  unfolding Let_def
  by (simp add: compact_defs runtime_defs new_writer_def)

subsection \<open>Which payload a generation writes\<close>

lemma call_payloads_append: "call_payloads (xs @ ys) = call_payloads xs @ call_payloads ys"
  by (induction xs rule: call_payloads.induct) simp_all

lemma last_call_snoc_Call [simp]: "last_call (evs @ [Call c]) = Some c"
  by (simp add: last_call_def call_payloads_append)

lemma last_call_snoc_Io [simp]: "last_call (evs @ [Io r]) = last_call evs"
  by (simp add: last_call_def call_payloads_append)

lemma buffer_step:
  assumes "slots st"
  shows "buffer (step st ev) =
     (case ev of Call c \<Rightarrow> if active st then Some c else None
               | Io r \<Rightarrow> (case inflight st of
                            None \<Rightarrow> buffer st
                          | Some (IoFrame f c sg) \<Rightarrow> if ends sg r then None else buffer st))"
proof (cases rule: step_cases[of ev st])
  case (CallIdle c)
  then show ?thesis using assms by (simp add: call_idle slots_def)
qed (simp_all add: call_queue_first call_queue_more io_idle io_written io_end_buffered
       io_end_drained_raw)

lemma buffer_last_call:
  "buffer (run (new_writer po file) evs) = Some b \<Longrightarrow> last_call evs = Some b"
proof (induction evs arbitrary: b rule: rev_induct)
  case Nil
  then show ?case by (simp add: new_writer_def)
next
  case (snoc ev evs)
  have sl: "slots (run (new_writer po file) evs)" by (rule slots_run[OF slots_new])
  show ?case
  proof (cases ev)
    case (Call c)
    then show ?thesis using snoc.prems by (simp add: run_snoc buffer_step[OF sl] split: if_splits)
  next
    case (Io r)
    then show ?thesis using snoc.prems snoc.IH
      by (simp add: run_snoc buffer_step[OF sl] split: option.splits io_frame.splits if_splits)
  qed
qed

lemma generation_start:
  assumes "inflight (step (run (new_writer po file) evs) ev) = Some (IoFrame f c WritingTmp)"
    and "inflight (step (run (new_writer po file) evs) ev) \<noteq> inflight (run (new_writer po file) evs)"
  shows "last_call (evs @ [ev]) = Some c"
proof (cases rule: step_cases[of ev "run (new_writer po file) evs"])
  case (CallIdle c')
  then show ?thesis using assms by (simp add: call_idle)
next
  case (CallFirst c')
  then show ?thesis using assms by (simp add: call_queue_first)
next
  case (CallMore c' q)
  then show ?thesis using assms by (simp add: call_queue_more)
next
  case (IoIdle r)
  then show ?thesis using assms by (simp add: io_idle)
next
  case (IoWritten g d)
  then show ?thesis using assms by (simp add: io_written)
next
  case (IoBuffered r g d sg b)
  then have "c = b" using assms by (simp add: io_end_buffered)
  then show ?thesis using IoBuffered(1) buffer_last_call[OF IoBuffered(4)] by simp
next
  case (IoDrained r g d sg)
  then show ?thesis using assms by (simp add: io_end_drained_raw)
qed

lemma renaming_tmp_step:
  assumes "\<forall>f c. inflight st = Some (IoFrame f c Renaming) \<longrightarrow> tmp_file st = Some c"
  shows "\<forall>f c. inflight (step st ev) = Some (IoFrame f c Renaming) \<longrightarrow>
           tmp_file (step st ev) = Some c"
  by (cases rule: step_cases[of ev st])
     (use assms in \<open>simp_all add: call_idle call_queue_first call_queue_more io_idle io_written
        io_end_buffered io_end_drained_raw\<close>)

lemma renaming_tmp:
  "inflight (run (new_writer po file) evs) = Some (IoFrame f c Renaming) \<Longrightarrow>
   tmp_file (run (new_writer po file) evs) = Some c"
proof (induction evs arbitrary: f c rule: rev_induct)
  case Nil
  then show ?case by (simp add: new_writer_def)
next
  case (snoc ev evs)
  then show ?case using renaming_tmp_step[of "run (new_writer po file) evs" ev]
    by (simp add: run_snoc)
qed

lemma commit_step:
  assumes "inflight (run (new_writer po file) evs) = Some (IoFrame f c Renaming)"
  shows "target_file (step (run (new_writer po file) evs) (Io Ok)) = Some c"
proof -
  let ?st = "run (new_writer po file) evs"
  have t: "tmp_file ?st = Some c" by (rule renaming_tmp[OF assms])
  have "target_file (after_try ?st c Renaming Ok) = Some c"
    using t by (simp add: after_try_def)
  then show ?thesis
    by (cases "buffer ?st")
       (simp_all add: io_end_buffered[OF assms] io_end_drained_raw[OF assms])
qed

subsection \<open>The order of the payloads written\<close>

lemma committed_cases:
  "committed x l = [] \<or>
   (\<exists>s d t c r l'. x = Rename s d Ok \<and> l = WriteFile t c r # l' \<and> committed x l = [c])"
  by (cases "(x, l)" rule: committed.cases) simp_all

lemma commits_WriteFile [simp]: "commits (WriteFile t c r # l) = commits l"
  by simp

lemma commits_in_payloads: "set (commits l) \<subseteq> set (payloads l)"
proof (induction l)
  case Nil
  then show ?case by simp
next
  case (Cons x l)
  have "set (committed x l) \<subseteq> set (payloads l)"
    using committed_cases[of x l] by auto
  moreover have "set (payloads l) \<subseteq> set (payloads (x # l))"
    by (cases x) auto
  ultimately show ?case using Cons.IH by auto
qed

lemma sorted_commits:
  "sorted_wrt P (payloads l) \<Longrightarrow> sorted_wrt P (commits l)"
proof (induction l)
  case Nil
  then show ?case by simp
next
  case (Cons x l)
  have tl: "sorted_wrt P (payloads l)"
    using Cons.prems by (cases x) simp_all
  have IH: "sorted_wrt P (commits l)" by (rule Cons.IH[OF tl])
  from committed_cases[of x l] show ?case
  proof
    assume "committed x l = []"
    then show ?thesis using IH by simp
  next
    assume "\<exists>s d t c r l'. x = Rename s d Ok \<and> l = WriteFile t c r # l' \<and>
              committed x l = [c]"
    then obtain s d t c r l' where x: "x = Rename s d Ok" and l: "l = WriteFile t c r # l'"
      and c: "committed x l = [c]" by blast
    have "\<forall>b \<in> set (payloads l'). P c b" using tl l by simp
    then have "\<forall>b \<in> set (commits l). P c b"
      using commits_in_payloads[of l'] l by auto
    then show ?thesis using IH c by simp
  qed
qed

lemma lineup_step_io:
  assumes "slots st" "wf st"
  shows "lineup (step st (Io r)) = lineup st"
proof (cases rule: step_cases[of "Io r" st])
  case (IoIdle r')
  then show ?thesis by (simp add: io_idle)
next
  case (IoWritten f c)
  then show ?thesis by (simp add: io_written lineup_def)
next
  case (IoBuffered r' f c sg b)
  then show ?thesis
    by (cases sg) (simp_all add: io_end_buffered lineup_def after_try_oplog)
next
  case (IoDrained r' f c sg)
  then show ?thesis
    by (cases sg) (simp_all add: io_end_drained_raw lineup_def after_try_oplog)
qed simp_all

lemma lineup_step_call:
  assumes "slots st" "wf st"
  shows "\<exists>old. lineup st = old @ tl (lineup (step st (Call c))) \<and> length old \<le> 1 \<and>
           hd (lineup (step st (Call c))) = c \<and> lineup (step st (Call c)) \<noteq> []"
proof (cases rule: step_cases[of "Call c" st])
  case (CallIdle c')
  have "inflight st = None" using wf_idleD[OF assms(2) CallIdle(2)] by simp
  moreover have "buffer st = None" using assms(1) CallIdle(2) by (simp add: slots_def)
  ultimately show ?thesis using CallIdle by (simp add: call_idle lineup_def)
next
  case (CallFirst c')
  then have "buffer st = None" using assms(1) by (simp add: slots_def)
  then show ?thesis using CallFirst by (simp add: call_queue_first lineup_def)
next
  case (CallMore c' q)
  then obtain b where "buffer st = Some b" using assms(1) by (auto simp: slots_def)
  then show ?thesis using CallMore by (simp add: call_queue_more lineup_def)
qed simp_all

lemma lineup_numbered:
  "slots st \<Longrightarrow> wf st \<Longrightarrow> sorted_wrt (>) (map fst (lineup st)) \<Longrightarrow>
   \<forall>x \<in> set (lineup st). fst x < n \<Longrightarrow>
   sorted_wrt (>) (map fst (lineup (run st (number n evs))))"
proof (induction n evs arbitrary: st rule: number.induct)
  case (1 n)
  then show ?case by simp
next
  case (2 n c evs)
  let ?st' = "step st (Call (n, c))"
  from lineup_step_call[OF "2.prems"(1,2), of "(n, c)"] obtain old where
    old: "lineup st = old @ tl (lineup ?st')" and hd: "hd (lineup ?st') = (n, c)"
    and ne: "lineup ?st' \<noteq> []" by auto
  have eq: "lineup ?st' = (n, c) # tl (lineup ?st')" using hd ne by (cases "lineup ?st'") auto
  have sub: "set (tl (lineup ?st')) \<subseteq> set (lineup st)" using old by auto
  have s1: "sorted_wrt (>) (map fst (tl (lineup ?st')))"
    using "2.prems"(3) old by (simp add: sorted_wrt_append)
  have tlb: "\<forall>x \<in> set (tl (lineup ?st')). fst x < n"
    using sub "2.prems"(4) by blast
  have s2: "sorted_wrt (>) (map fst (lineup ?st'))"
    using s1 tlb by (subst eq) auto
  have b: "\<forall>x \<in> set (lineup ?st'). fst x < Suc n"
    using tlb by (subst eq) (auto simp: less_SucI)
  show ?case
    using "2.IH"[OF slots_step[OF "2.prems"(1)] wf_step[OF "2.prems"(2)] s2 b] by simp
next
  case (3 n r evs)
  have l: "lineup (step st (Io r)) = lineup st" by (rule lineup_step_io[OF "3.prems"(1,2)])
  show ?case
    using "3.IH"[OF slots_step[OF "3.prems"(1)] wf_step[OF "3.prems"(2)]] "3.prems"(3,4) l
    by simp
qed

lemma payloads_numbered:
  "sorted_wrt (>) (map fst (payloads (oplog (run (new_writer po file) (number 0 evs)))))"
proof -
  have "sorted_wrt (>) (map fst (lineup (run (new_writer po file) (number 0 evs))))"
    by (rule lineup_numbered[OF slots_new wf_new]) (simp_all add: lineup_def new_writer_def)
  then show ?thesis by (simp add: lineup_def sorted_wrt_append)
qed

lemma sorted_wrt_rev_flip: "sorted_wrt P (rev xs) = sorted_wrt (\<lambda>x y. P y x) xs"
  by (induction xs) (auto simp: sorted_wrt_append)

lemma sorted_rev_fst:
  fixes xs :: "(nat \<times> 'a) list"
  assumes "sorted_wrt (>) (map fst xs)"
  shows "sorted_wrt (<) (map fst (rev xs))"
proof -
  have "sorted_wrt (<) (rev (map fst xs))" using assms by (simp add: sorted_wrt_rev_flip)
  then show ?thesis by (simp add: rev_map)
qed

text \<open>
  C5. In the compact variant, whenever an event starts a generation (a new write to the
  temporary file is in flight after it), the payload of that generation is the payload
  of the most recent \<^verbatim>\<open>write\<close> call among the events so far; when the rename of a
  generation succeeds, the target file holds that generation's payload. With the calls
  numbered in call order, the payloads written by the successive generations, and so the
  payloads committed, carry strictly increasing call numbers: no generation writes or
  commits a payload older than that of a generation before it.
\<close>

theorem commit_order:
  "(let st = run (new_writer po file) evs; st' = step st ev
    in inflight st' = Some (IoFrame f c WritingTmp) \<and> inflight st' \<noteq> inflight st \<longrightarrow>
         last_call (evs @ [ev]) = Some c) \<and>
   (let st = run (new_writer po file) cevs
    in inflight st = Some (IoFrame g d Renaming) \<longrightarrow>
         target_file (step st (Io Ok)) = Some d \<and>
         oplog (step st (Io Ok)) = Rename (tmp st) (target st) Ok # oplog st) \<and>
   sorted_wrt (<) (map fst (rev (payloads (oplog (run (new_writer po file) (number 0 nevs)))))) \<and>
   sorted_wrt (<) (map fst (rev (commits (oplog (run (new_writer po file) (number 0 nevs))))))"
proof -
  let ?l = "oplog (run (new_writer po file) (number 0 nevs))"
  have p: "sorted_wrt (>) (map fst (payloads ?l))" by (rule payloads_numbered)
  then have "sorted_wrt (\<lambda>x y. fst x > fst y) (payloads ?l)" by (simp add: sorted_wrt_map)
  then have "sorted_wrt (\<lambda>x y. fst x > fst y) (commits ?l)" by (rule sorted_commits)
  then have c: "sorted_wrt (>) (map fst (commits ?l))" by (simp add: sorted_wrt_map)
  have log: "inflight (run (new_writer po file) cevs) = Some (IoFrame g d Renaming) \<Longrightarrow>
      oplog (step (run (new_writer po file) cevs) (Io Ok)) =
        Rename (tmp (run (new_writer po file) cevs)) (target (run (new_writer po file) cevs)) Ok
          # oplog (run (new_writer po file) cevs)"
    by (cases "buffer (run (new_writer po file) cevs)")
       (simp_all add: io_end_buffered io_end_drained_raw after_try_oplog)
  show ?thesis
    unfolding Let_def
    using generation_start[of po "file" evs ev f c] commit_step[of po "file" cevs g d] log
      sorted_rev_fst[OF p] sorted_rev_fst[OF c]
    by blast
qed

theorem commit_order_witness:
  "inflight (run (new_writer plain_paths (PathString ''f''))
       [Call ''A'', Call ''B'', Call ''C'', Io Ok, Io Ok]) = Some (IoFrame 5 ''C'' WritingTmp) \<and>
   inflight (run (new_writer plain_paths (PathString ''f''))
       [Call ''A'', Call ''B'', Call ''C'', Io Ok]) = Some (IoFrame 0 ''A'' Renaming) \<and>
   last_call ([Call ''A'', Call ''B'', Call ''C'', Io Ok] @ [Io Ok]) = Some ''C'' \<and>
   target_file (run (new_writer plain_paths (PathString ''f''))
       [Call ''A'', Call ''B'', Call ''C'', Io Ok, Io Ok]) = Some ''A'' \<and>
   map fst (rev (payloads (oplog (run (new_writer plain_paths (PathString ''f''))
       (number 0 [Call ''A'', Call ''B'', Call ''C'', Io Ok, Io Ok, Io Ok, Io Ok])))))
     = [0, 2] \<and>
   map fst (rev (commits (oplog (run (new_writer plain_paths (PathString ''f''))
       (number 0 [Call ''A'', Call ''B'', Call ''C'', Io Ok, Io Ok, Io Ok, Io Ok])))))
     = [0, 2]"
  using commit_order[of plain_paths "PathString ''f''"
      "[Call ''A'', Call ''B'', Call ''C'', Io Ok]" "Io Ok" 5 "''C''"
      "[Call ''A'', Call ''B'', Call ''C'', Io Ok]" 0 "''A''"
      "[Call ''A'', Call ''B'', Call ''C'', Io Ok, Io Ok, Io Ok, Io Ok] :: string event list"]
  unfolding Let_def
  by (simp add: compact_defs runtime_defs new_writer_def last_call_def)

subsection \<open>The generations that have ended\<close>

lemma log_ok_step: "log_ok st \<Longrightarrow> log_ok (step st ev)"
  by (cases rule: step_cases[of ev st])
     (simp_all add: log_ok_def call_idle call_queue_first call_queue_more io_idle io_written
        io_end_buffered io_end_drained_raw)

lemma log_ok_run: "log_ok st \<Longrightarrow> log_ok (run st evs)"
  by (induction evs arbitrary: st) (simp_all add: log_ok_step)

lemma log_ok_new: "log_ok (new_writer po file)"
  by (simp add: log_ok_def new_writer_def)

lemma results_call: "results (step st (Call c)) = results st"
  by (cases rule: step_cases[of "Call c" st])
     (simp_all add: results_def call_idle call_queue_first call_queue_more)

lemma results_io_idle: "inflight st = None \<Longrightarrow> results (step st (Io r)) = results st"
  by (simp add: io_idle)

lemma results_io_written:
  "inflight st = Some (IoFrame f c WritingTmp) \<Longrightarrow> results (step st (Io Ok)) = results st"
  by (simp add: io_written results_def)

lemma results_after_try:
  assumes "log_ok st" "inflight st = Some (IoFrame f c sg)" "ends sg r"
  shows "gens (oplog (after_try st c sg r)) = (c, r) # gens (oplog st)"
proof (cases sg)
  case WritingTmp
  then obtain e where "r = Throws e" using assms(3) by (cases r) simp_all
  then show ?thesis using WritingTmp by (simp add: after_try_oplog)
next
  case Renaming
  then obtain l where "oplog st = WriteFile (tmp st) c Ok # l"
    using assms(1,2) by (auto simp: log_ok_def)
  then show ?thesis using Renaming by (simp add: after_try_oplog)
qed

lemma results_io_end:
  assumes "log_ok st" "inflight st = Some (IoFrame f c sg)" "ends sg r"
  shows "results (step st (Io r)) = results st @ [(c, r)]"
  using results_after_try[OF assms]
  by (cases "buffer st")
     (simp_all add: results_def io_end_buffered[OF assms(2,3)] io_end_drained_raw[OF assms(2,3)])

lemma results_step_prefix: "log_ok st \<Longrightarrow> \<exists>xs. results (step st ev) = results st @ xs"
  by (cases rule: step_cases[of ev st])
     (simp_all add: results_call results_io_idle results_io_written results_io_end)

lemma served_append: "k < length rs \<Longrightarrow> served (rs @ xs) k = served rs k"
  by (simp add: served_def nth_append)

lemma end_step_current:
  assumes wf: "wf st" and inf: "inflight st = Some (IoFrame f c sg)" and e: "ends sg r"
    and q: "current st = Some q"
  shows "promises (step st (Io r)) q = verdict r"
    and "unreferenced (step st (Io r)) q"
proof -
  note D = wf_inflightD[OF wf inf]
  from wf_slotsD(1)[OF wf q] have a: "q < next_id st" "promises st q = Pending"
    "waiting st \<noteq> Some q" by auto
  have qf: "q \<noteq> f" using D(5) q by auto
  have qs: "q \<notin> aw_promise ` set (suspended st)" using D(10) q by auto
  have n: "notified (current st) r (promises st) q = verdict r"
    using q a(2) by (cases r) (simp_all add: fulfil_def reject_def)
  have "promises (step st (Io r)) q = verdict r \<and> unreferenced (step st (Io r)) q"
  proof (cases "buffer st")
    case None
    have "drained_promises st f r q = notified (current st) r (promises st) q"
      by (rule drained_unwind(2)[OF wf inf qf qs])
    then show ?thesis using n a
      by (simp add: io_end_drained[OF wf inf e None] unreferenced_def frame_promises_def)
  next
    case (Some b)
    show ?thesis using n a qf qs
      by (simp add: io_end_buffered[OF inf e Some] unreferenced_def frame_promises_def)
  qed
  then show "promises (step st (Io r)) q = verdict r" "unreferenced (step st (Io r)) q"
    by simp_all
qed

subsection \<open>The life of a queued promise\<close>

lemma track_mono: "track q k S st \<Longrightarrow> S \<subseteq> S' \<Longrightarrow> track q k S' st"
  unfolding track_def by blast

lemma track_queued_step:
  assumes wf: "wf st" and sl: "slots st" and lg: "log_ok st"
    and k: "Suc (length (results st)) = k" and q: "queued st = Some q"
    and b: "buffer st = Some b" "b \<in> S"
  shows "track q k (S \<union> set (call_payloads [ev])) (step st ev)"
proof -
  have act: "active st" using sl b(1) by (auto simp: slots_def)
  have w: "waiting st = Some q" using wf q by (simp add: wf_def)
  show ?thesis
  proof (cases rule: step_cases[of ev st])
    case (CallIdle c)
    then show ?thesis using act by simp
  next
    case (CallFirst c)
    then show ?thesis using q by simp
  next
    case (CallMore c q')
    then show ?thesis using k q
      by (simp add: track_def results_call) (simp add: call_queue_more)
  next
    case (IoIdle r)
    then show ?thesis using act wf by (simp add: wf_def)
  next
    case (IoWritten f c)
    then show ?thesis using k q b
      by (simp add: track_def results_io_written) (auto simp: io_written)
  next
    case (IoBuffered r f c sg b')
    have "results (step st (Io r)) = results st @ [(c, r)]"
      by (rule results_io_end[OF lg IoBuffered(2,3)])
    then show ?thesis using k w b IoBuffered
      by (simp add: track_def) (simp add: io_end_buffered[OF IoBuffered(2-4)])
  next
    case (IoDrained r f c sg)
    then show ?thesis using b by simp
  qed
qed

lemma track_current_step:
  assumes wf: "wf st" and lg: "log_ok st"
    and k: "length (results st) = k" and q: "current st = Some q"
    and inf: "inflight st = Some (IoFrame f b sg)" and b: "b \<in> S"
  shows "track q k (S \<union> set (call_payloads [ev])) (step st ev)"
proof -
  have act: "active st" using wf inf by (simp add: wf_def)
  show ?thesis
  proof (cases rule: step_cases[of ev st])
    case (CallIdle c)
    then show ?thesis using act by simp
  next
    case (CallFirst c)
    then show ?thesis using k q inf b
      by (simp add: track_def results_call) (simp add: call_queue_first)
  next
    case (CallMore c q')
    then show ?thesis using k q inf b
      by (simp add: track_def results_call) (simp add: call_queue_more)
  next
    case (IoIdle r)
    then show ?thesis using inf by simp
  next
    case (IoWritten f' c)
    then show ?thesis using k q inf b
      by (simp add: track_def results_io_written) (simp add: io_written)
  next
    case (IoBuffered r f' c sg' b')
    then have e: "ends sg r" using inf by simp
    have res: "results (step st (Io r)) = results st @ [(b, r)]"
      by (rule results_io_end[OF lg inf e])
    have "promises (step st (Io r)) q = verdict r" "unreferenced (step st (Io r)) q"
      using end_step_current[OF wf inf e q] by simp_all
    then show ?thesis using k b IoBuffered(1)
      by (simp add: track_def res served_def nth_append)
  next
    case (IoDrained r f' c sg')
    then have e: "ends sg r" using inf by simp
    have res: "results (step st (Io r)) = results st @ [(b, r)]"
      by (rule results_io_end[OF lg inf e])
    have "promises (step st (Io r)) q = verdict r" "unreferenced (step st (Io r)) q"
      using end_step_current[OF wf inf e q] by simp_all
    then show ?thesis using k b IoDrained(1)
      by (simp add: track_def res served_def nth_append)
  qed
qed

lemma track_done_step:
  assumes lg: "log_ok st"
    and k: "k < length (results st)" and u: "unreferenced st q"
    and p: "promises st q = served (results st) k" and s: "fst (results st ! k) \<in> S"
  shows "track q k (S \<union> set (call_payloads [ev])) (step st ev)"
proof -
  obtain xs where xs: "results (step st ev) = results st @ xs"
    using results_step_prefix[OF lg] by blast
  have "unreferenced (step st ev) q" "promises (step st ev) q = promises st q"
    using unreferenced_step[OF u] by simp_all
  then show ?thesis using k p s
    by (simp add: track_def xs served_append nth_append)
qed

lemma track_step:
  assumes "wf st" "slots st" "log_ok st" "track q k S st"
  shows "track q k (S \<union> set (call_payloads [ev])) (step st ev)"
  using assms(4) unfolding track_def[of q k S st]
  by (elim disjE conjE exE bexE)
     (auto intro: track_queued_step[OF assms(1-3)] track_current_step[OF assms(1,3)]
        track_done_step[OF assms(3)])

lemma track_run:
  "wf st \<Longrightarrow> slots st \<Longrightarrow> log_ok st \<Longrightarrow> track q k S st \<Longrightarrow>
   track q k (S \<union> set (call_payloads evs)) (run st evs)"
proof (induction evs arbitrary: st S)
  case Nil
  then show ?case by simp
next
  case (Cons ev evs)
  have t: "track q k (S \<union> set (call_payloads [ev])) (step st ev)"
    by (rule track_step[OF Cons.prems])
  have "track q k (S \<union> set (call_payloads [ev]) \<union> set (call_payloads evs))
          (run (step st ev) evs)"
    by (rule Cons.IH[OF wf_step[OF Cons.prems(1)] slots_step[OF Cons.prems(2)]
          log_ok_step[OF Cons.prems(3)] t])
  moreover have "S \<union> set (call_payloads [ev]) \<union> set (call_payloads evs)
      = S \<union> set (call_payloads (ev # evs))"
    by (cases ev) auto
  ultimately show ?case by simp
qed

lemma track_served:
  assumes "wf st" "track q k S st"
  shows "promises st q = served (results st) k"
  using assms(2) unfolding track_def
proof (elim disjE conjE)
  assume "Suc (length (results st)) = k" "queued st = Some q"
  then show ?thesis using assms(1) wf_slotsD(2)[OF assms(1), of q]
    by (auto simp: served_def wf_def)
next
  assume "length (results st) = k" "current st = Some q"
  then show ?thesis using wf_slotsD(1)[OF assms(1), of q] by (simp add: served_def)
qed

subsection \<open>Calls made while a write is active\<close>

lemma call_active:
  assumes "active st"
  shows "\<exists>q. queued (step st (Call c)) = Some q \<and>
           promises (step st (Call c)) (last (issued (step st (Call c)))) = Adopts q \<and>
           buffer (step st (Call c)) = Some c \<and>
           (queued st \<noteq> None \<longrightarrow> queued st = Some q)"
  using assms by (cases "queued st") (simp_all add: call_queue_first call_queue_more)

lemma deferred_call:
  assumes act: "active (run (new_writer po file) evs)"
  shows "\<exists>q. queued (step (run (new_writer po file) evs) (Call c)) = Some q \<and>
      (queued (run (new_writer po file) evs) \<noteq> None \<longrightarrow>
         queued (run (new_writer po file) evs) = Some q) \<and>
      (\<forall>more. promises (run (step (run (new_writer po file) evs) (Call c)) more)
                 (last (issued (step (run (new_writer po file) evs) (Call c)))) = Adopts q \<and>
         promises (run (step (run (new_writer po file) evs) (Call c)) more) q =
           served (results (run (step (run (new_writer po file) evs) (Call c)) more))
             (Suc (length (results (run (new_writer po file) evs)))) \<and>
         (length (results (run (step (run (new_writer po file) evs) (Call c)) more))
            = length (results (run (new_writer po file) evs)) \<longrightarrow>
          queued (run (step (run (new_writer po file) evs) (Call c)) more) = Some q \<and>
          active (run (step (run (new_writer po file) evs) (Call c)) more)) \<and>
         (Suc (length (results (run (new_writer po file) evs)))
            < length (results (run (step (run (new_writer po file) evs) (Call c)) more)) \<longrightarrow>
          fst (results (run (step (run (new_writer po file) evs) (Call c)) more)
                 ! Suc (length (results (run (new_writer po file) evs))))
            \<in> insert c (set (call_payloads more))))"
proof -
  let ?s = "run (new_writer po file) evs"
  let ?s' = "step ?s (Call c)"
  let ?k = "Suc (length (results ?s))"
  have inv: "wf ?s'" "slots ?s'" "log_ok ?s'" "unused ?s'"
    using reachable[of po "file" evs]
    by (simp_all add: wf_step slots_step slots_run slots_new log_ok_step log_ok_run log_ok_new
          unused_step)
  from call_active[OF act, of c] obtain q where
    q: "queued ?s' = Some q" and a: "promises ?s' (last (issued ?s')) = Adopts q"
    and b: "buffer ?s' = Some c" and old: "queued ?s \<noteq> None \<longrightarrow> queued ?s = Some q"
    by blast
  have t0: "track q ?k {c} ?s'"
    using q b by (simp add: track_def results_call)
  have main: "promises (run ?s' more) (last (issued ?s')) = Adopts q \<and>
         promises (run ?s' more) q = served (results (run ?s' more)) ?k \<and>
         (length (results (run ?s' more)) = length (results ?s) \<longrightarrow>
            queued (run ?s' more) = Some q \<and> active (run ?s' more)) \<and>
         (?k < length (results (run ?s' more)) \<longrightarrow>
            fst (results (run ?s' more) ! ?k) \<in> insert c (set (call_payloads more)))" for more
  proof -
    let ?t = "run ?s' more"
    have tr: "track q ?k ({c} \<union> set (call_payloads more)) ?t"
      by (rule track_run[OF inv(1-3) t0])
    have wft: "wf ?t" by (rule wf_run[OF inv(1)])
    have slt: "slots ?t" by (rule slots_run[OF inv(2)])
    have 1: "promises ?t (last (issued ?s')) = Adopts q"
      by (rule adopts_run[OF inv(1,4) a])
    have 2: "promises ?t q = served (results ?t) ?k"
      by (rule track_served[OF wft tr])
    have 3: "length (results ?t) = length (results ?s) \<longrightarrow> queued ?t = Some q \<and> active ?t"
      using tr slt by (auto simp: track_def slots_def)
    have 4: "?k < length (results ?t) \<longrightarrow>
        fst (results ?t ! ?k) \<in> insert c (set (call_payloads more))"
      using tr by (auto simp: track_def)
    show ?thesis using 1 2 3 4 by blast
  qed
  show ?thesis using q old main by blast
qed

lemma next_id_step: "next_id st \<le> next_id (step st ev)"
  by (cases rule: step_cases[of ev st])
     (simp_all add: call_idle call_queue_first call_queue_more io_idle io_written
        io_end_buffered io_end_drained_raw)

lemma next_id_run: "next_id st \<le> next_id (run st evs)"
proof (induction evs arbitrary: st)
  case Nil
  then show ?case by simp
next
  case (Cons ev evs)
  show ?case using next_id_step[of st ev] Cons.IH[of "step st ev"] by simp
qed

lemma call_issued:
  "next_id st \<le> last (issued (step st (Call c))) \<and>
   last (issued (step st (Call c))) < next_id (step st (Call c))"
  by (cases rule: step_cases[of "Call c" st])
     (simp_all add: call_idle call_queue_first call_queue_more)

text \<open>
  C4, as the claim states it, fails: \<^verbatim>\<open>write("B")\<close> and \<^verbatim>\<open>write("C")\<close> arrive while the
  write of \<^verbatim>\<open>"A"\<close> is active. They do not receive the very same promise: they receive
  the promises \<open>3\<close> and \<open>4\<close>, both resolved with the queued promise \<open>2\<close>. And when
  the single generation that runs for them throws a value that is not an \<^verbatim>\<open>Error\<close>,
  they neither resolve nor reject: both are pending after the generation has failed.
\<close>

theorem coalesced_calls_left_pending:
  "issued (run (new_writer plain_paths (PathString ''f''))
       [Call ''A'', Call ''B'', Call ''C'']) = [1, 3, 4] \<and>
   promises (run (new_writer plain_paths (PathString ''f''))
       [Call ''A'', Call ''B'', Call ''C'']) 3 = Adopts 2 \<and>
   promises (run (new_writer plain_paths (PathString ''f''))
       [Call ''A'', Call ''B'', Call ''C'']) 4 = Adopts 2 \<and>
   results (run (new_writer plain_paths (PathString ''f''))
       [Call ''A'', Call ''B'', Call ''C'', Io Ok, Io Ok, Io Ok,
        Io (Throws (Thrown False ''boom''))])
     = [(''A'', Ok), (''C'', Throws (Thrown False ''boom''))] \<and>
   outcomes (run (new_writer plain_paths (PathString ''f''))
       [Call ''A'', Call ''B'', Call ''C'', Io Ok, Io Ok, Io Ok,
        Io (Throws (Thrown False ''boom''))])
     = [Rejected (Thrown False ''boom''), Pending, Pending] \<and>
   \<not> busy (run (new_writer plain_paths (PathString ''f''))
       [Call ''A'', Call ''B'', Call ''C'', Io Ok, Io Ok, Io Ok,
        Io (Throws (Thrown False ''boom''))])"
  by (simp add: compact_defs runtime_defs new_writer_def results_def)

text \<open>
  C4, amended. Let two \<^verbatim>\<open>write\<close> calls arrive, in a run from construction, while a
  write is active and before the next write starts: the writer is active at the first
  call and no generation ends between the two calls. Each call returns a promise of its
  own, and the two are resolved with one and the same queued promise, so at every later
  moment they have the same state. That state is decided by the single generation that
  runs for them, the one that follows the generation in flight at the calls: the
  promises are pending until it has ended, fulfilled if it commits, rejected with \<open>e\<close> if
  it fails with an \<^verbatim>\<open>Error\<close> \<open>e\<close>, and pending for ever if it throws a value that is not
  an \<^verbatim>\<open>Error\<close>.
\<close>

theorem coalesced_calls_share_promise:
  "let s1 = run (new_writer po file) evs1; s1' = step s1 (Call c1);
       s2 = run s1' evs2; s2' = step s2 (Call c2);
       t = run s2' evs3;
       p1 = last (issued s1'); p2 = last (issued s2');
       k = Suc (length (results s1))
   in active s1 \<and> length (results s2) = length (results s1) \<longrightarrow>
        p1 \<noteq> p2 \<and>
        (\<exists>q. promises t p1 = Adopts q \<and> promises t p2 = Adopts q) \<and>
        outcome t p1 = outcome t p2 \<and>
        outcome t p1 = served (results t) k"
proof -
  let ?s1 = "run (new_writer po file) evs1"
  let ?s1' = "step ?s1 (Call c1)"
  let ?s2 = "run ?s1' evs2"
  let ?s2' = "step ?s2 (Call c2)"
  let ?t = "run ?s2' evs3"
  let ?k = "Suc (length (results ?s1))"
  have s2: "?s2 = run (new_writer po file) (evs1 @ Call c1 # evs2)"
    by (simp add: run_append)
  have t: "?t = run ?s1' (evs2 @ Call c2 # evs3)"
    by (simp add: run_append)
  show ?thesis
    unfolding Let_def
  proof (rule impI, elim conjE)
    assume act: "active ?s1" and len: "length (results ?s2) = length (results ?s1)"
    from deferred_call[OF act, of c1] obtain q where
      q: "queued ?s1' = Some q"
      and m1: "\<And>more. promises (run ?s1' more) (last (issued ?s1')) = Adopts q \<and>
         promises (run ?s1' more) q = served (results (run ?s1' more)) ?k \<and>
         (length (results (run ?s1' more)) = length (results ?s1) \<longrightarrow>
            queued (run ?s1' more) = Some q \<and> active (run ?s1' more))"
      by blast
    from m1[of evs2] len have q2: "queued ?s2 = Some q" and act2: "active ?s2" by auto
    have act2': "active (run (new_writer po file) (evs1 @ Call c1 # evs2))"
      using act2 s2 by simp
    from deferred_call[OF act2', of c2] obtain q' where
      old: "queued ?s2 \<noteq> None \<longrightarrow> queued ?s2 = Some q'"
      and m2: "\<And>more. promises (run ?s2' more) (last (issued ?s2')) = Adopts q'"
      unfolding s2[symmetric] by blast
    have qq: "q' = q" using old q2 by simp
    have a1: "promises ?t (last (issued ?s1')) = Adopts q"
      and sv: "promises ?t q = served (results ?t) ?k"
      using m1[of "evs2 @ Call c2 # evs3"] t by simp_all
    have a2: "promises ?t (last (issued ?s2')) = Adopts q"
      using m2[of evs3] qq by simp
    have "last (issued ?s1') < next_id ?s1'" using call_issued[of ?s1 c1] by simp
    also have "\<dots> \<le> next_id ?s2" by (rule next_id_run)
    also have "\<dots> \<le> last (issued ?s2')" using call_issued[of ?s2 c2] by simp
    finally have ne: "last (issued ?s1') \<noteq> last (issued ?s2')" by simp
    show "last (issued ?s1') \<noteq> last (issued ?s2') \<and>
        (\<exists>q. promises ?t (last (issued ?s1')) = Adopts q \<and>
              promises ?t (last (issued ?s2')) = Adopts q) \<and>
        outcome ?t (last (issued ?s1')) = outcome ?t (last (issued ?s2')) \<and>
        outcome ?t (last (issued ?s1')) = served (results ?t) ?k"
      using ne a1 a2 sv by (auto simp: outcome_def outcome_of_def)
  qed
qed

theorem coalesced_calls_share_promise_witness:
  "active (run (new_writer plain_paths (PathString ''f'')) [Call ''A'']) \<and>
   length (results (run (new_writer plain_paths (PathString ''f''))
       [Call ''A'', Call ''B'', Io Ok]))
     = length (results (run (new_writer plain_paths (PathString ''f'')) [Call ''A''])) \<and>
   last (issued (run (new_writer plain_paths (PathString ''f'')) [Call ''A'', Call ''B''])) = 3 \<and>
   last (issued (run (new_writer plain_paths (PathString ''f''))
       [Call ''A'', Call ''B'', Io Ok, Call ''C''])) = 4 \<and>
   outcome (run (new_writer plain_paths (PathString ''f''))
       [Call ''A'', Call ''B'', Io Ok, Call ''C'', Io Ok, Io Ok,
        Io (Throws (Thrown True ''EIO''))]) 3 = Rejected (Thrown True ''EIO'') \<and>
   outcome (run (new_writer plain_paths (PathString ''f''))
       [Call ''A'', Call ''B'', Io Ok, Call ''C'', Io Ok, Io Ok,
        Io (Throws (Thrown True ''EIO''))]) 4 = Rejected (Thrown True ''EIO'') \<and>
   served (results (run (new_writer plain_paths (PathString ''f''))
       [Call ''A'', Call ''B'', Io Ok, Call ''C'', Io Ok, Io Ok,
        Io (Throws (Thrown True ''EIO''))])) 1 = Rejected (Thrown True ''EIO'')"
  using coalesced_calls_share_promise[of plain_paths "PathString ''f''" "[Call ''A'']" "''B''"
      "[Io Ok]" "''C''" "[Io Ok, Io Ok, Io (Throws (Thrown True ''EIO''))]"]
  unfolding Let_def
  by (simp add: compact_defs runtime_defs new_writer_def results_def served_def)

subsection \<open>The chain of invocations behind a call on an idle writer\<close>

lemma last_throw_snoc:
  "last_throw (rs @ [r]) = (case r of Ok \<Rightarrow> last_throw rs | Throws e \<Rightarrow> Some e)"
  by (induction rs) (auto split: io_result.splits option.splits)

lemma override_fold:
  "foldl override c0 (rev (map completion_of rs)) =
     (case c0 of
        Throw e \<Rightarrow> Throw e
      | Normal \<Rightarrow> (case last_throw rs of Some e \<Rightarrow> Throw e | None \<Rightarrow> Normal))"
proof (induction rs)
  case Nil
  then show ?case by (cases c0) simp_all
next
  case (Cons x rs)
  then show ?case
    by (cases c0; cases x; cases "last_throw rs") simp_all
qed

lemma chain_verdict:
  "pstate_of (foldl override (completion_of r) (rev (map completion_of rs)))
     = chain_outcome (rs @ [r])"
  by (cases r; cases "last_throw rs")
     (simp_all add: override_fold chain_outcome_def last_throw_snoc)

lemma stays_active_hd: "stays_active st evs \<Longrightarrow> active st"
  by (cases evs) simp_all

lemma chain_frame:
  assumes "chain n m st" "inflight st = Some (IoFrame f c sg)"
  shows "n = f \<or> n \<in> aw_promise ` set (suspended st)"
    and "suspended st = [] \<Longrightarrow> n = f"
    and "suspended st \<noteq> [] \<Longrightarrow> n = aw_promise (suspended st ! (length (suspended st) - 1))"
  using assms by (auto simp: chain_def last_conv_nth)

lemma chain_pending:
  assumes wf: "wf st" and ch: "chain n m st"
  shows "promises st n = Pending"
proof -
  from ch obtain fr where inf: "inflight st = Some fr" by (auto simp: chain_def)
  obtain f c sg where fr: "fr = IoFrame f c sg" by (cases fr)
  note D = wf_inflightD[OF wf inf[unfolded fr]]
  from chain_frame(1)[OF ch inf[unfolded fr]] show ?thesis using D(4,10) by auto
qed

lemma chain_step:
  assumes wf: "wf st" and lg: "log_ok st" and ch: "chain n m st"
    and act: "active (step st ev)"
  shows "chain n m (step st ev)"
proof (cases rule: step_cases[of ev st])
  case (CallIdle c)
  then show ?thesis using ch by (simp add: chain_def)
next
  case (CallFirst c)
  then show ?thesis using ch
    by (simp add: chain_def results_call) (simp add: call_queue_first)
next
  case (CallMore c q)
  then show ?thesis using ch
    by (simp add: chain_def results_call) (simp add: call_queue_more)
next
  case (IoIdle r)
  then show ?thesis using ch by (simp add: io_idle)
next
  case (IoWritten f c)
  then show ?thesis using ch
    by (simp add: chain_def results_io_written) (auto simp: io_written)
next
  case (IoBuffered r f c sg b)
  have res: "results (step st (Io r)) = results st @ [(c, r)]"
    by (rule results_io_end[OF lg IoBuffered(2,3)])
  have n: "suspended st = [] \<Longrightarrow> n = f" by (rule chain_frame(2)[OF ch IoBuffered(2)])
  show ?thesis using ch IoBuffered(1) n
    by (simp add: chain_def res) (auto simp: io_end_buffered[OF IoBuffered(2-4)])
next
  case (IoDrained r f c sg)
  then show ?thesis using act by (simp add: io_end_drained_raw)
qed

lemma chain_run:
  "wf st \<Longrightarrow> log_ok st \<Longrightarrow> chain n m st \<Longrightarrow> stays_active st evs \<Longrightarrow>
   chain n m (run st evs)"
proof (induction evs arbitrary: st)
  case Nil
  then show ?case by simp
next
  case (Cons ev evs)
  have sa: "stays_active (step st ev) evs" using Cons.prems(4) by simp
  have "chain n m (step st ev)"
    by (rule chain_step[OF Cons.prems(1-3) stays_active_hd[OF sa]])
  from Cons.IH[OF wf_step[OF Cons.prems(1)] log_ok_step[OF Cons.prems(2)] this sa]
  show ?case by simp
qed

lemma chain_drained:
  assumes wf: "wf st" and lg: "log_ok st" and ch: "chain n m st"
    and inf: "inflight st = Some (IoFrame f c sg)" and e: "ends sg r" and b: "buffer st = None"
  shows "promises (step st (Io r)) n = chain_outcome (map snd (drop m (results (step st (Io r)))))"
    and "unreferenced (step st (Io r)) n"
proof -
  note D = wf_inflightD[OF wf inf]
  let ?rs = "map snd (drop m (results st))"
  have eq: "step st (Io r) =
     (after_try st c sg r)\<lparr>active := False, current := waiting st, waiting := None,
        queued := None, promises := drained_promises st f r, suspended := []\<rparr>"
    by (rule io_end_drained[OF wf inf e b])
  have res: "results (step st (Io r)) = results st @ [(c, r)]"
    by (rule results_io_end[OF lg inf e])
  have m: "m \<le> length (results st)" using ch by (simp add: chain_def)
  have pend: "map aw_pending (suspended st) = rev (map completion_of ?rs)"
    using ch by (simp add: chain_def comp_def)
  have dr: "map snd (drop m (results (step st (Io r)))) = ?rs @ [r]"
    using m by (simp add: res)
  have "drained_promises st f r n = chain_outcome (?rs @ [r])"
  proof (cases "suspended st = []")
    case True
    then have "n = f" by (rule chain_frame(2)[OF ch inf])
    moreover have "?rs = []" using pend True by simp
    ultimately show ?thesis
      using drained_unwind(3)[OF wf inf, of r] chain_verdict[of r "[]"] by simp
  next
    case False
    let ?i = "length (suspended st) - 1"
    have n: "n = aw_promise (suspended st ! ?i)" by (rule chain_frame(3)[OF ch inf False])
    have i: "?i < length (suspended st)" using False by simp
    have tk: "take (Suc ?i) (suspended st) = suspended st" using False by simp
    show ?thesis
      using drained_unwind(4)[OF wf inf i, of r] chain_verdict[of r ?rs]
      by (simp add: n tk pend)
  qed
  moreover have "promises (step st (Io r)) n = drained_promises st f r n"
    by (simp add: eq)
  ultimately show "promises (step st (Io r)) n
      = chain_outcome (map snd (drop m (results (step st (Io r)))))"
    by (simp only: dr)
  have "n < next_id st \<and> waiting st \<noteq> Some n"
    using chain_frame(1)[OF ch inf] D(3,6,10) by auto
  then show "unreferenced (step st (Io r)) n"
    by (simp add: eq unreferenced_def frame_promises_def)
qed

lemma call_idle_chain:
  assumes wf: "wf st" and idle: "\<not> active st"
  shows "chain (next_id st) (length (results st)) (step st (Call c))"
    and "promises (step st (Call c)) (last (issued (step st (Call c)))) = Adopts (next_id st)"
    and "inflight (step st (Call c)) = Some (IoFrame (next_id st) c WritingTmp)"
  using wf_idleD[OF wf idle]
  by (simp_all add: chain_def results_call) (simp_all add: call_idle[OF idle])

lemma idle_call:
  assumes idle: "\<not> active (run (new_writer po file) evs)"
    and sa: "stays_active (step (run (new_writer po file) evs) (Call c)) rest"
  shows "outcome (run (step (run (new_writer po file) evs) (Call c)) rest)
           (last (issued (step (run (new_writer po file) evs) (Call c)))) = Pending"
    and "\<not> active (step (run (step (run (new_writer po file) evs) (Call c)) rest) ev) \<Longrightarrow>
         outcome (run (step (run (step (run (new_writer po file) evs) (Call c)) rest) ev) later)
           (last (issued (step (run (new_writer po file) evs) (Call c))))
         = chain_outcome (map snd (drop (length (results (run (new_writer po file) evs)))
             (results (step (run (step (run (new_writer po file) evs) (Call c)) rest) ev))))"
proof -
  let ?s = "run (new_writer po file) evs"
  let ?s' = "step ?s (Call c)"
  let ?p = "last (issued ?s')"
  let ?n = "next_id ?s"
  let ?m = "length (results ?s)"
  let ?t = "run ?s' rest"
  have inv: "wf ?s" "wf ?s'" "log_ok ?s'" "unused ?s'"
    using reachable[of po "file" evs]
    by (simp_all add: wf_step log_ok_step log_ok_run log_ok_new unused_step)
  note C = call_idle_chain[OF inv(1) idle, of c]
  have ch: "chain ?n ?m ?t" by (rule chain_run[OF inv(2,3) C(1) sa])
  have wft: "wf ?t" by (rule wf_run[OF inv(2)])
  have lgt: "log_ok ?t" by (rule log_ok_run[OF inv(3)])
  have unt: "unused ?t" by (rule unused_run[OF inv(2,4)])
  have ad: "promises ?t ?p = Adopts ?n" by (rule adopts_run[OF inv(2,4) C(2)])
  show "outcome ?t ?p = Pending"
    using ad chain_pending[OF wft ch] by (simp add: outcome_def outcome_of_def)
  show "outcome (run (step ?t ev) later) ?p
         = chain_outcome (map snd (drop ?m (results (step ?t ev))))"
    if na: "\<not> active (step ?t ev)"
  proof -
    have act: "active ?t" using ch by (simp add: chain_def)
    have "promises (step ?t ev) ?n = chain_outcome (map snd (drop ?m (results (step ?t ev))))
        \<and> unreferenced (step ?t ev) ?n"
    proof (cases rule: step_cases[of ev ?t])
      case (CallIdle c')
      then show ?thesis using act by simp
    next
      case (CallFirst c')
      then show ?thesis using na by (simp add: call_queue_first)
    next
      case (CallMore c' q)
      then show ?thesis using na by (simp add: call_queue_more)
    next
      case (IoIdle r)
      then show ?thesis using na act by (simp add: io_idle)
    next
      case (IoWritten f c')
      then show ?thesis using na act by (simp add: io_written)
    next
      case (IoBuffered r f c' sg b)
      then show ?thesis using na by (simp add: io_end_buffered)
    next
      case (IoDrained r f c' sg)
      show ?thesis
        unfolding IoDrained(1)
        using chain_drained[OF wft lgt ch IoDrained(2-4)] by simp
    qed
    then have "promises (run (step ?t ev) later) ?n
        = chain_outcome (map snd (drop ?m (results (step ?t ev))))"
      using unreferenced_run[of "step ?t ev" ?n later] by simp
    moreover have "promises (run (step ?t ev) later) ?p = Adopts ?n"
      by (rule adopts_run[OF wf_step[OF wft] unused_step[OF wft unt] adopts_step[OF wft unt ad]])
    ultimately show ?thesis by (simp add: outcome_def outcome_of_def)
  qed
qed

lemma verdict_cases:
  "(verdict r = Fulfilled \<longleftrightarrow> r = Ok) \<and> (verdict r = Rejected e \<longrightarrow> r = Throws e)"
  by (cases r) (auto split: if_splits)

lemma served_cases:
  "(served rs k = Fulfilled \<longleftrightarrow> k < length rs \<and> snd (rs ! k) = Ok) \<and>
   (served rs k = Rejected e \<longrightarrow> k < length rs \<and> snd (rs ! k) = Throws e)"
  using verdict_cases[of "snd (rs ! k)" e] by (simp add: served_def)

text \<open>
  C1, as the claim states it, fails: \<^verbatim>\<open>write("A")\<close> is called on an idle writer and
  \<^verbatim>\<open>write("B")\<close> while it is in flight. The generation of \<^verbatim>\<open>"A"\<close> commits (the file
  holds \<^verbatim>\<open>"A"\<close>), and the promise of \<^verbatim>\<open>write("A")\<close> is not resolved: it is pending then,
  and once the later generation for \<^verbatim>\<open>"B"\<close> has failed it is rejected with that
  generation's error, although its own generation succeeded.
\<close>

theorem committed_write_rejected_later:
  "target_file (run (new_writer plain_paths (PathString ''f''))
       [Call ''A'', Call ''B'', Io Ok, Io Ok]) = Some ''A'' \<and>
   outcomes (run (new_writer plain_paths (PathString ''f''))
       [Call ''A'', Call ''B'', Io Ok, Io Ok]) = [Pending, Pending] \<and>
   results (run (new_writer plain_paths (PathString ''f''))
       [Call ''A'', Call ''B'', Io Ok, Io Ok, Io (Throws (Thrown True ''ENOSPC''))])
     = [(''A'', Ok), (''B'', Throws (Thrown True ''ENOSPC''))] \<and>
   outcomes (run (new_writer plain_paths (PathString ''f''))
       [Call ''A'', Call ''B'', Io Ok, Io Ok, Io (Throws (Thrown True ''ENOSPC''))])
     = [Rejected (Thrown True ''ENOSPC''), Rejected (Thrown True ''ENOSPC'')] \<and>
   target_file (run (new_writer plain_paths (PathString ''f''))
       [Call ''A'', Call ''B'', Io Ok, Io Ok, Io (Throws (Thrown True ''ENOSPC''))])
     = Some ''A''"
  by (simp add: compact_defs runtime_defs new_writer_def results_def)

text \<open>
  C1, amended. In every run of the compact variant from construction:

  A call \<^verbatim>\<open>write(c)\<close> made while a write is active is served by the generation that
  follows the one in flight at the call (generation number \<open>k\<close>, when \<open>k - 1\<close> had
  ended before). At every later moment its promise is fulfilled exactly when that
  generation has committed; it is rejected only if that generation failed, and then with
  the value it threw, never because of another generation; and that generation writes
  \<open>c\<close> or the payload of a later call.

  A call \<^verbatim>\<open>write(d)\<close> made while the writer is idle starts the generation for \<open>d\<close> at
  once. Its promise is pending as long as the writer stays active, and when the writer
  next goes idle it is settled for good with the outcome of the whole chain of
  generations that ended since the call: fulfilled if all of them committed, and
  otherwise rejected with the value thrown by the last of them that failed, be it the
  generation of \<open>d\<close> or a later one.
\<close>

theorem write_promise_settlement:
  "(let s = run (new_writer po file) evs; s' = step s (Call c); p = last (issued s');
        t = run s' rest; k = Suc (length (results s))
    in active s \<longrightarrow>
         (outcome t p = Fulfilled \<longleftrightarrow> k < length (results t) \<and> snd (results t ! k) = Ok) \<and>
         (\<forall>e. outcome t p = Rejected e \<longrightarrow>
              k < length (results t) \<and> snd (results t ! k) = Throws e) \<and>
         (k < length (results t) \<longrightarrow>
              fst (results t ! k) \<in> insert c (set (call_payloads rest)))) \<and>
   (let s = run (new_writer po file) ievs; s' = step s (Call d); p = last (issued s');
        t = run s' irest; t' = step t ev; m = length (results s)
    in \<not> active s \<and> stays_active s' irest \<longrightarrow>
         (\<exists>f. inflight s' = Some (IoFrame f d WritingTmp)) \<and>
         outcome t p = Pending \<and>
         (\<not> active t' \<longrightarrow>
            (\<forall>later. outcome (run t' later) p
                       = chain_outcome (map snd (drop m (results t'))))))"
proof -
  have a: "(outcome (run (step (run (new_writer po file) evs) (Call c)) rest)
              (last (issued (step (run (new_writer po file) evs) (Call c)))) = Fulfilled \<longleftrightarrow>
            Suc (length (results (run (new_writer po file) evs)))
              < length (results (run (step (run (new_writer po file) evs) (Call c)) rest)) \<and>
            snd (results (run (step (run (new_writer po file) evs) (Call c)) rest)
                   ! Suc (length (results (run (new_writer po file) evs)))) = Ok) \<and>
         (\<forall>e. outcome (run (step (run (new_writer po file) evs) (Call c)) rest)
              (last (issued (step (run (new_writer po file) evs) (Call c)))) = Rejected e \<longrightarrow>
            Suc (length (results (run (new_writer po file) evs)))
              < length (results (run (step (run (new_writer po file) evs) (Call c)) rest)) \<and>
            snd (results (run (step (run (new_writer po file) evs) (Call c)) rest)
                   ! Suc (length (results (run (new_writer po file) evs)))) = Throws e) \<and>
         (Suc (length (results (run (new_writer po file) evs)))
            < length (results (run (step (run (new_writer po file) evs) (Call c)) rest)) \<longrightarrow>
          fst (results (run (step (run (new_writer po file) evs) (Call c)) rest)
                 ! Suc (length (results (run (new_writer po file) evs))))
            \<in> insert c (set (call_payloads rest)))"
    if act: "active (run (new_writer po file) evs)"
  proof -
    let ?s = "run (new_writer po file) evs"
    let ?s' = "step ?s (Call c)"
    let ?t = "run ?s' rest"
    let ?k = "Suc (length (results ?s))"
    from deferred_call[OF act, of c] obtain q where
      m: "promises ?t (last (issued ?s')) = Adopts q"
        "promises ?t q = served (results ?t) ?k"
        "?k < length (results ?t) \<longrightarrow>
           fst (results ?t ! ?k) \<in> insert c (set (call_payloads rest))"
      by blast
    have o: "outcome ?t (last (issued ?s')) = served (results ?t) ?k"
      using m(1,2) by (simp add: outcome_def outcome_of_def)
    show ?thesis
      unfolding o using served_cases[of "results ?t" ?k] m(3) by blast
  qed
  have b: "(\<exists>f. inflight (step (run (new_writer po file) ievs) (Call d))
                  = Some (IoFrame f d WritingTmp)) \<and>
         outcome (run (step (run (new_writer po file) ievs) (Call d)) irest)
           (last (issued (step (run (new_writer po file) ievs) (Call d)))) = Pending \<and>
         (\<not> active (step (run (step (run (new_writer po file) ievs) (Call d)) irest) ev) \<longrightarrow>
            (\<forall>later. outcome
                 (run (step (run (step (run (new_writer po file) ievs) (Call d)) irest) ev) later)
                 (last (issued (step (run (new_writer po file) ievs) (Call d))))
               = chain_outcome (map snd (drop (length (results (run (new_writer po file) ievs)))
                   (results (step (run (step (run (new_writer po file) ievs) (Call d)) irest)
                      ev))))))"
    if idle: "\<not> active (run (new_writer po file) ievs)"
      and sa: "stays_active (step (run (new_writer po file) ievs) (Call d)) irest"
    using idle_call[OF idle sa] call_idle[OF idle, of d] by simp
  show ?thesis
    unfolding Let_def using a b by blast
qed

theorem write_promise_settlement_witness:
  "active (run (new_writer plain_paths (PathString ''f'')) [Call ''A'']) \<and>
   last (issued (run (new_writer plain_paths (PathString ''f'')) [Call ''A'', Call ''B''])) = 3 \<and>
   outcome (run (new_writer plain_paths (PathString ''f''))
       [Call ''A'', Call ''B'', Io Ok, Io Ok, Io Ok, Io Ok]) 3 = Fulfilled \<and>
   results (run (new_writer plain_paths (PathString ''f''))
       [Call ''A'', Call ''B'', Io Ok, Io Ok, Io Ok, Io Ok]) = [(''A'', Ok), (''B'', Ok)] \<and>
   \<not> active (run (new_writer plain_paths (PathString ''f'')) ([] :: string event list)) \<and>
   stays_active (step (run (new_writer plain_paths (PathString ''f'')) []) (Call ''A''))
     [Call ''B'', Io Ok, Io Ok] \<and>
   \<not> active (run (new_writer plain_paths (PathString ''f''))
       [Call ''A'', Call ''B'', Io Ok, Io Ok, Io (Throws (Thrown True ''ENOSPC''))]) \<and>
   outcome (run (new_writer plain_paths (PathString ''f''))
       [Call ''A'', Call ''B'', Io Ok, Io Ok, Io (Throws (Thrown True ''ENOSPC''))]) 1
     = Rejected (Thrown True ''ENOSPC'') \<and>
   chain_outcome [Ok, Throws (Thrown True ''ENOSPC'')] = Rejected (Thrown True ''ENOSPC'')"
  using write_promise_settlement[of plain_paths "PathString ''f''" "[Call ''A'']" "''B''"
      "[Io Ok, Io Ok, Io Ok, Io Ok]" "[]" "''A''" "[Call ''B'', Io Ok, Io Ok]"
      "Io (Throws (Thrown True ''ENOSPC''))"]
  unfolding Let_def
  by (simp add: compact_defs runtime_defs new_writer_def results_def chain_outcome_def)

end
